theory Spec2Isabelle
  imports Main "HOL-Library.Word" "HOL-Library.Monad_Syntax"
begin

unbundle bit_operations_syntax

section \<open>Bytes, words and the host's byte order\<close>

text \<open>
  libmbim-glib/mbim-message.c keeps every message in a GByteArray and reads and writes the
  MBIM header through C structs laid over the array's bytes. The model keeps the array as
  the list of its \<open>len\<close> valid bytes and makes the host's byte order a parameter, so that
  the conversions done by \<open>GUINT32_TO_LE\<close> and \<open>GUINT32_FROM_LE\<close> are part of the model.
\<close>

type_synonym guint8 = "8 word"
type_synonym guint32 = "32 word"

datatype byte_order = G_LITTLE_ENDIAN | G_BIG_ENDIAN

text \<open>The four bytes of a 32-bit value, least significant byte first, and back.\<close>

definition le_bytes :: "guint32 \<Rightarrow> guint8 list" where
  "le_bytes w = [ucast w, ucast (drop_bit 8 w), ucast (drop_bit 16 w), ucast (drop_bit 24 w)]"

definition le_word :: "guint8 list \<Rightarrow> guint32" where
  "le_word bs = ucast (bs ! 0) OR push_bit 8 (ucast (bs ! 1))
                OR push_bit 16 (ucast (bs ! 2)) OR push_bit 24 (ucast (bs ! 3))"

text \<open>How the host keeps a guint32 in memory, and how it reads four bytes as a guint32.\<close>

definition host_store :: "byte_order \<Rightarrow> guint32 \<Rightarrow> guint8 list" where
  "host_store h w = (case h of G_LITTLE_ENDIAN \<Rightarrow> le_bytes w | G_BIG_ENDIAN \<Rightarrow> rev (le_bytes w))"

definition host_load :: "byte_order \<Rightarrow> guint8 list \<Rightarrow> guint32" where
  "host_load h bs = (case h of G_LITTLE_ENDIAN \<Rightarrow> le_word bs | G_BIG_ENDIAN \<Rightarrow> le_word (rev bs))"

text \<open>GLib's \<open>GUINT32_SWAP_LE_BE\<close>, \<open>GUINT32_TO_LE\<close> and \<open>GUINT32_FROM_LE\<close>.\<close>

definition GUINT32_SWAP_LE_BE :: "guint32 \<Rightarrow> guint32" where
  "GUINT32_SWAP_LE_BE val =
     push_bit 24 (val AND 0xff) OR push_bit 8 (val AND 0xff00)
     OR drop_bit 8 (val AND 0xff0000) OR drop_bit 24 (val AND 0xff000000)"

definition GUINT32_TO_LE :: "byte_order \<Rightarrow> guint32 \<Rightarrow> guint32" where
  "GUINT32_TO_LE h val = (case h of G_LITTLE_ENDIAN \<Rightarrow> val | G_BIG_ENDIAN \<Rightarrow> GUINT32_SWAP_LE_BE val)"

definition GUINT32_FROM_LE :: "byte_order \<Rightarrow> guint32 \<Rightarrow> guint32" where
  "GUINT32_FROM_LE h val = (case h of G_LITTLE_ENDIAN \<Rightarrow> val | G_BIG_ENDIAN \<Rightarrow> GUINT32_SWAP_LE_BE val)"

text \<open>
  A read or a write of a guint32 field at a byte offset of an array. A C access outside the
  array's \<open>len\<close> bytes has no defined result: the model returns \<open>None\<close> there, and
  \<open>None\<close> is also the result of a call that does not return (\<open>g_assert\<close>, \<open>g_error\<close>).
\<close>

definition peek32 :: "byte_order \<Rightarrow> guint8 list \<Rightarrow> nat \<Rightarrow> guint32 option" where
  "peek32 h bs off =
     (if off + 4 \<le> length bs then Some (host_load h (take 4 (drop off bs))) else None)"

definition poke32 :: "byte_order \<Rightarrow> guint8 list \<Rightarrow> nat \<Rightarrow> guint32 \<Rightarrow> guint8 list option" where
  "poke32 h bs off v =
     (if off + 4 \<le> length bs then Some (take off bs @ host_store h v @ drop (off + 4) bs)
      else None)"


section \<open>Messages\<close>

text \<open>
  An MbimMessage is a GByteArray: the model is the list of the array's \<open>len\<close> bytes, and
  \<open>length\<close> of the list is the array's \<open>len\<close> field (a guint, so below \<open>2 ^ 32\<close>).
  Every function takes the host's byte order as its first argument. The functions of the
  source whose names start with an underscore are written without it.
\<close>

type_synonym MbimMessage = "guint8 list"

text \<open>
  Modelled from the spec: the structs and macros of mbim-message-private.h and the enums of
  mbim-message.h, which mbim-message.c includes but does not contain.
  Section 6 of the specification gives the layout that the struct overlays of the source
  address: \<open>type\<close> at offset 0, \<open>length\<close> at 4, \<open>transaction_id\<close> at 8 (\<open>struct header\<close>,
  12 bytes); then, by message type, either one guint32 at offset 12
  (\<open>max_control_transfer\<close>, \<open>status_code\<close>, \<open>error_status_code\<close>), or
  \<open>struct fragment_header\<close> (8 bytes) with \<open>total\<close> at 12 and \<open>current\<close> at 16, and the
  information buffer from offset 20. Section 3 gives the values of the message types. The
  header macros read a field and convert it with \<open>GUINT32_FROM_LE\<close>.
\<close>

definition MBIM_MESSAGE_TYPE_OPEN :: guint32 where
  "MBIM_MESSAGE_TYPE_OPEN = 0x00000001"

definition MBIM_MESSAGE_TYPE_CLOSE :: guint32 where
  "MBIM_MESSAGE_TYPE_CLOSE = 0x00000002"

definition MBIM_MESSAGE_TYPE_COMMAND :: guint32 where
  "MBIM_MESSAGE_TYPE_COMMAND = 0x00000003"

definition MBIM_MESSAGE_TYPE_HOST_ERROR :: guint32 where
  "MBIM_MESSAGE_TYPE_HOST_ERROR = 0x00000004"

definition MBIM_MESSAGE_TYPE_COMMAND_DONE :: guint32 where
  "MBIM_MESSAGE_TYPE_COMMAND_DONE = 0x80000003"

definition MBIM_MESSAGE_TYPE_INDICATION :: guint32 where
  "MBIM_MESSAGE_TYPE_INDICATION = 0x80000007"

definition sizeof_header :: guint32 where
  "sizeof_header = 12"

definition sizeof_fragment_header :: guint32 where
  "sizeof_fragment_header = 8"

definition sizeof_open_message :: guint32 where
  "sizeof_open_message = 4"

definition MBIM_MESSAGE_GET_MESSAGE_TYPE :: "byte_order \<Rightarrow> MbimMessage \<Rightarrow> guint32 option" where
  "MBIM_MESSAGE_GET_MESSAGE_TYPE h self = map_option (GUINT32_FROM_LE h) (peek32 h self 0)"

definition MBIM_MESSAGE_GET_MESSAGE_LENGTH :: "byte_order \<Rightarrow> MbimMessage \<Rightarrow> guint32 option" where
  "MBIM_MESSAGE_GET_MESSAGE_LENGTH h self = map_option (GUINT32_FROM_LE h) (peek32 h self 4)"

definition MBIM_MESSAGE_GET_TRANSACTION_ID :: "byte_order \<Rightarrow> MbimMessage \<Rightarrow> guint32 option" where
  "MBIM_MESSAGE_GET_TRANSACTION_ID h self = map_option (GUINT32_FROM_LE h) (peek32 h self 8)"

subsection \<open>GLib: byte arrays, assertions, errors, printf\<close>

definition G_MAXUINT :: nat where
  "G_MAXUINT = 4294967295"

definition g_byte_array_sized_new :: "guint32 \<Rightarrow> guint8 list" where
  "g_byte_array_sized_new reserved_size = []"

text \<open>
  \<open>g_byte_array_set_size\<close> does not initialise the bytes it adds: \<open>heap\<close> gives what the
  allocated memory holds at each index.
\<close>

definition g_byte_array_set_size :: "(nat \<Rightarrow> guint8) \<Rightarrow> guint8 list \<Rightarrow> guint32 \<Rightarrow> guint8 list" where
  "g_byte_array_set_size heap array len =
     (if unat len \<le> length array then take (unat len) array
      else array @ map heap [length array ..< unat len])"

text \<open>
  \<open>g_byte_array_append array data len\<close> copies \<open>len\<close> bytes from \<open>data\<close>, here the list of
  the bytes readable from that pointer. It has no result when fewer bytes are readable, or
  when the array's guint \<open>len\<close> would pass \<open>G_MAXUINT\<close>.
\<close>

definition g_byte_array_append :: "guint8 list \<Rightarrow> guint8 list \<Rightarrow> guint32 \<Rightarrow> guint8 list option" where
  "g_byte_array_append array data len =
     (if unat len \<le> length data \<and> length array + unat len \<le> G_MAXUINT
      then Some (array @ take (unat len) data) else None)"

definition g_assert :: "bool \<Rightarrow> unit option" where
  "g_assert c = (if c then Some () else None)"

datatype GQuark = MBIM_CORE_ERROR | MBIM_PROTOCOL_ERROR

datatype error_code = MBIM_CORE_ERROR_FAILED | MBIM_PROTOCOL_ERROR_FRAGMENT_OUT_OF_SEQUENCE

record GError =
  domain :: GQuark
  code :: error_code
  message :: string

definition g_set_error :: "GQuark \<Rightarrow> error_code \<Rightarrow> string \<Rightarrow> GError" where
  "g_set_error d c m = \<lparr>domain = d, code = c, message = m\<rparr>"

text \<open>The conversion \<open>%u\<close> of printf: an unsigned value in decimal.\<close>

definition digit :: "nat \<Rightarrow> char" where
  "digit n = ''0123456789'' ! n"

fun decimal :: "nat \<Rightarrow> string" where
  "decimal n = (if n < 10 then [digit n] else decimal (n div 10) @ [digit (n mod 10)])"

declare decimal.simps [simp del]

definition printf_u :: "guint32 \<Rightarrow> string" where
  "printf_u v = decimal (unat v)"

definition quote :: string where
  "quote = [CHR 0x27]"

subsection \<open>Generic message interface\<close>

definition mbim_message_allocate ::
  "byte_order \<Rightarrow> (nat \<Rightarrow> guint8) \<Rightarrow> guint32 \<Rightarrow> guint32 \<Rightarrow> guint32 \<Rightarrow> MbimMessage option" where
  "mbim_message_allocate h heap message_type transaction_id additional_size = do {
     let len = sizeof_header + additional_size;
     let self = g_byte_array_sized_new len;
     let self = g_byte_array_set_size heap self len;
     self \<leftarrow> poke32 h self 0 (GUINT32_TO_LE h message_type);
     self \<leftarrow> poke32 h self 4 (GUINT32_TO_LE h len);
     self \<leftarrow> poke32 h self 8 (GUINT32_TO_LE h transaction_id);
     Some self
   }"

definition mbim_message_get_message_type :: "byte_order \<Rightarrow> MbimMessage \<Rightarrow> guint32 option" where
  "mbim_message_get_message_type h self = MBIM_MESSAGE_GET_MESSAGE_TYPE h self"

definition mbim_message_get_message_length :: "byte_order \<Rightarrow> MbimMessage \<Rightarrow> guint32 option" where
  "mbim_message_get_message_length h self = MBIM_MESSAGE_GET_MESSAGE_LENGTH h self"

definition mbim_message_get_transaction_id :: "byte_order \<Rightarrow> MbimMessage \<Rightarrow> guint32 option" where
  "mbim_message_get_transaction_id h self = MBIM_MESSAGE_GET_TRANSACTION_ID h self"

definition mbim_message_new :: "guint8 list \<Rightarrow> guint32 \<Rightarrow> MbimMessage option" where
  "mbim_message_new data data_length =
     g_byte_array_append (g_byte_array_sized_new data_length) data data_length"

definition mbim_message_dup :: "byte_order \<Rightarrow> MbimMessage \<Rightarrow> MbimMessage option" where
  "mbim_message_dup h self = do {
     len \<leftarrow> MBIM_MESSAGE_GET_MESSAGE_LENGTH h self;
     mbim_message_new self len
   }"

text \<open>
  \<open>mbim_message_get_raw\<close> returns the error, or the array's data with its \<open>len\<close> stored
  through the \<open>length\<close> pointer. The \<open>data\<close> pointer of a GByteArray is NULL only while
  nothing was ever stored in it, and then \<open>len\<close> is 0: both tests of the source are the
  test for the empty list.
\<close>

definition mbim_message_get_raw :: "MbimMessage \<Rightarrow> GError + (guint8 list \<times> guint32)" where
  "mbim_message_get_raw self =
     (if self = [] \<or> length self = 0
      then Inl (g_set_error MBIM_CORE_ERROR MBIM_CORE_ERROR_FAILED ''Message is empty'')
      else Inr (self, of_nat (length self)))"


subsection \<open>Fragment interface\<close>

definition MBIM_MESSAGE_IS_FRAGMENT :: "byte_order \<Rightarrow> MbimMessage \<Rightarrow> bool option" where
  "MBIM_MESSAGE_IS_FRAGMENT h self = do {
     t \<leftarrow> MBIM_MESSAGE_GET_MESSAGE_TYPE h self;
     Some (t = MBIM_MESSAGE_TYPE_COMMAND \<or> t = MBIM_MESSAGE_TYPE_COMMAND_DONE
           \<or> t = MBIM_MESSAGE_TYPE_INDICATION)
   }"

definition MBIM_MESSAGE_FRAGMENT_GET_TOTAL :: "byte_order \<Rightarrow> MbimMessage \<Rightarrow> guint32 option" where
  "MBIM_MESSAGE_FRAGMENT_GET_TOTAL h self = map_option (GUINT32_FROM_LE h) (peek32 h self 12)"

definition MBIM_MESSAGE_FRAGMENT_GET_CURRENT :: "byte_order \<Rightarrow> MbimMessage \<Rightarrow> guint32 option" where
  "MBIM_MESSAGE_FRAGMENT_GET_CURRENT h self = map_option (GUINT32_FROM_LE h) (peek32 h self 16)"

definition mbim_message_is_fragment :: "byte_order \<Rightarrow> MbimMessage \<Rightarrow> bool option" where
  "mbim_message_is_fragment h self = MBIM_MESSAGE_IS_FRAGMENT h self"

definition mbim_message_fragment_get_total :: "byte_order \<Rightarrow> MbimMessage \<Rightarrow> guint32 option" where
  "mbim_message_fragment_get_total h self = do {
     f \<leftarrow> MBIM_MESSAGE_IS_FRAGMENT h self;
     _ \<leftarrow> g_assert f;
     MBIM_MESSAGE_FRAGMENT_GET_TOTAL h self
   }"

definition mbim_message_fragment_get_current :: "byte_order \<Rightarrow> MbimMessage \<Rightarrow> guint32 option" where
  "mbim_message_fragment_get_current h self = do {
     f \<leftarrow> MBIM_MESSAGE_IS_FRAGMENT h self;
     _ \<leftarrow> g_assert f;
     MBIM_MESSAGE_FRAGMENT_GET_CURRENT h self
   }"

text \<open>
  The payload pointer is \<open>message.fragment.buffer\<close>, the address of offset 20: the model
  returns the bytes readable from there, with the length the source stores.
\<close>

definition mbim_message_fragment_get_payload ::
  "byte_order \<Rightarrow> MbimMessage \<Rightarrow> (guint8 list \<times> guint32) option" where
  "mbim_message_fragment_get_payload h self = do {
     f \<leftarrow> MBIM_MESSAGE_IS_FRAGMENT h self;
     _ \<leftarrow> g_assert f;
     len \<leftarrow> MBIM_MESSAGE_GET_MESSAGE_LENGTH h self;
     Some (drop 20 self, len - sizeof_header - sizeof_fragment_header)
   }"

text \<open>
  The collector's functions return a GError (\<open>Inl\<close>) or their value. \<open>add\<close> and
  \<open>complete\<close> change \<open>self\<close> in place: the model returns the array after the call as well.
\<close>

definition mbim_message_fragment_collector_init ::
  "byte_order \<Rightarrow> MbimMessage \<Rightarrow> (GError + MbimMessage) option" where
  "mbim_message_fragment_collector_init h fragment = do {
     f \<leftarrow> MBIM_MESSAGE_IS_FRAGMENT h fragment;
     _ \<leftarrow> g_assert f;
     current \<leftarrow> MBIM_MESSAGE_FRAGMENT_GET_CURRENT h fragment;
     if current \<noteq> 0 then do {
       total \<leftarrow> MBIM_MESSAGE_FRAGMENT_GET_TOTAL h fragment;
       Some (Inl (g_set_error MBIM_PROTOCOL_ERROR MBIM_PROTOCOL_ERROR_FRAGMENT_OUT_OF_SEQUENCE
         (''Expecting fragment '' @ quote @ ''0/'' @ printf_u total @ quote @ '', got '' @ quote
          @ printf_u current @ ''/'' @ printf_u total @ quote)))
     } else do {
       copy \<leftarrow> mbim_message_dup h fragment;
       Some (Inr copy)
     }
   }"

definition mbim_message_fragment_collector_add ::
  "byte_order \<Rightarrow> MbimMessage \<Rightarrow> MbimMessage \<Rightarrow> (MbimMessage \<times> (GError + unit)) option" where
  "mbim_message_fragment_collector_add h self fragment = do {
     f \<leftarrow> MBIM_MESSAGE_IS_FRAGMENT h self;
     _ \<leftarrow> g_assert f;
     f \<leftarrow> MBIM_MESSAGE_IS_FRAGMENT h fragment;
     _ \<leftarrow> g_assert f;
     self_current \<leftarrow> MBIM_MESSAGE_FRAGMENT_GET_CURRENT h self;
     fragment_current \<leftarrow> MBIM_MESSAGE_FRAGMENT_GET_CURRENT h fragment;
     if self_current \<noteq> fragment_current - 1 then do {
       self_total \<leftarrow> MBIM_MESSAGE_FRAGMENT_GET_TOTAL h self;
       fragment_total \<leftarrow> MBIM_MESSAGE_FRAGMENT_GET_TOTAL h fragment;
       Some (self, Inl (g_set_error MBIM_PROTOCOL_ERROR MBIM_PROTOCOL_ERROR_FRAGMENT_OUT_OF_SEQUENCE
         (''Expecting fragment '' @ quote @ printf_u (self_current + 1) @ ''/''
          @ printf_u self_total @ quote @ '', got '' @ quote
          @ printf_u fragment_current @ ''/'' @ printf_u fragment_total @ quote)))
     } else do {
       (buffer, buffer_len) \<leftarrow> mbim_message_fragment_get_payload h fragment;
       self \<leftarrow> (if buffer_len \<noteq> 0 then do {
                  self \<leftarrow> g_byte_array_append self buffer buffer_len;
                  len \<leftarrow> MBIM_MESSAGE_GET_MESSAGE_LENGTH h self;
                  poke32 h self 4 (GUINT32_TO_LE h (len + buffer_len))
                } else Some self);
       raw_current \<leftarrow> peek32 h fragment 16;
       self \<leftarrow> poke32 h self 16 raw_current;
       Some (self, Inr ())
     }
   }"

definition mbim_message_fragment_collector_complete ::
  "byte_order \<Rightarrow> MbimMessage \<Rightarrow> (MbimMessage \<times> bool) option" where
  "mbim_message_fragment_collector_complete h self = do {
     f \<leftarrow> MBIM_MESSAGE_IS_FRAGMENT h self;
     _ \<leftarrow> g_assert f;
     current \<leftarrow> MBIM_MESSAGE_FRAGMENT_GET_CURRENT h self;
     total \<leftarrow> MBIM_MESSAGE_FRAGMENT_GET_TOTAL h self;
     if current \<noteq> total - 1 then Some (self, False)
     else do {
       self \<leftarrow> poke32 h self 16 0;
       self \<leftarrow> poke32 h self 12 (GUINT32_TO_LE h 1);
       Some (self, True)
     }
   }"

text \<open>
  Modelled from the spec: \<open>struct fragment_info\<close> of mbim-message-private.h, by section 4.3 a
  12-byte MBIM header, an 8-byte fragment header, a pointer to a payload slice inside the
  source message and the slice's length. The guint32 fields hold what the source assigns
  (values already converted with \<open>GUINT32_TO_LE\<close>); the pointer \<open>data\<close> is kept as its
  distance in bytes from \<open>message.fragment.buffer\<close> of the source message.
\<close>

record struct_header =
  type_hdr :: guint32
  length_hdr :: guint32
  transaction_id_hdr :: guint32

record struct_fragment_header =
  total_fh :: guint32
  current_fh :: guint32

record struct_fragment_info =
  header :: struct_header
  fragment_header :: struct_fragment_header
  data_length :: guint32
  data :: nat

text \<open>
  The loop of \<open>_mbim_message_split_fragments\<close>, with its walkers \<open>data\<close> and \<open>data_length\<close>;
  \<open>g_array_insert_val\<close> at index \<open>i\<close> of an array of \<open>i\<close> elements appends.
\<close>

function split_fragments_loop ::
  "byte_order \<Rightarrow> MbimMessage \<Rightarrow> guint32 \<Rightarrow> guint32 \<Rightarrow> guint32 \<Rightarrow> guint32
   \<Rightarrow> nat \<Rightarrow> guint32 \<Rightarrow> struct_fragment_info list
   \<Rightarrow> (struct_fragment_info list \<times> guint32) option" where
  "split_fragments_loop h self fragment_header_length fragment_payload_length total_fragments
       i data_p data_len array =
     (if i < total_fragments then do {
        let info_data = data_p;
        let info_data_length =
          (if data_len > fragment_payload_length then fragment_payload_length else data_len);
        t \<leftarrow> MBIM_MESSAGE_GET_MESSAGE_TYPE h self;
        tid \<leftarrow> MBIM_MESSAGE_GET_TRANSACTION_ID h self;
        let info = \<lparr>header = \<lparr>type_hdr = GUINT32_TO_LE h t,
                                length_hdr = GUINT32_TO_LE h (fragment_header_length + info_data_length),
                                transaction_id_hdr = GUINT32_TO_LE h tid\<rparr>,
                    fragment_header = \<lparr>total_fh = GUINT32_TO_LE h total_fragments,
                                         current_fh = GUINT32_TO_LE h i\<rparr>,
                    data_length = info_data_length,
                    data = info_data\<rparr>;
        split_fragments_loop h self fragment_header_length fragment_payload_length total_fragments
          (i + 1) (data_p + unat info_data_length) (data_len - info_data_length) (array @ [info])
      } else Some (array, data_len))"
  by pat_completeness auto


termination
proof (relation "measure (\<lambda>(h, self, fhl, fpl, total_fragments, i, data_p, data_len, array).
                            unat total_fragments - unat i)")
  show "wf (measure (\<lambda>(h, self, fhl, fpl, total_fragments, i, data_p, data_len, array).
                            unat total_fragments - unat i))"
    by simp
next
  fix h :: byte_order and self :: MbimMessage
    and fragment_header_length fragment_payload_length total_fragments i data_len :: guint32
    and data_p :: nat and array :: "struct_fragment_info list"
    and x xa xb xc xd
  assume "i < total_fragments"
  then have lt: "unat i < unat total_fragments"
    by (simp add: word_less_nat_alt)
  moreover have "unat total_fragments < 2 ^ 32"
    using unsigned_less [of total_fragments] by simp
  ultimately have "unat (i + 1) = unat i + 1"
    by (simp add: unat_word_ariths)
  with lt
  show "((h, self, fragment_header_length, fragment_payload_length, total_fragments, i + 1,
          data_p + unat xa, data_len - xa, array @ [xd]),
         h, self, fragment_header_length, fragment_payload_length, total_fragments, i, data_p,
         data_len, array)
        \<in> measure (\<lambda>(h, self, fhl, fpl, total_fragments, i, data_p, data_len, array).
                            unat total_fragments - unat i)"
    by simp
qed

declare split_fragments_loop.simps [simp del]


text \<open>
  \<open>_mbim_message_split_fragments\<close> returns NULL (\<open>None\<close> inside), or the array of
  descriptors with the count stored in \<open>n_fragments\<close>. A division by zero has no result.
\<close>

definition mbim_message_split_fragments ::
  "byte_order \<Rightarrow> MbimMessage \<Rightarrow> guint32 \<Rightarrow> (struct_fragment_info list \<times> guint32) option option" where
  "mbim_message_split_fragments h self max_fragment_size = do {
     total_message_length \<leftarrow> mbim_message_get_message_length h self;
     if total_message_length \<le> max_fragment_size then Some None
     else do {
       let fragment_header_length = sizeof_header + sizeof_fragment_header;
       let total_payload_length = total_message_length - fragment_header_length;
       let fragment_payload_length = max_fragment_size - fragment_header_length;
       _ \<leftarrow> (if fragment_payload_length = 0 then None else Some ());
       let total_fragments = total_payload_length div fragment_payload_length;
       let total_fragments =
         (if total_payload_length mod fragment_payload_length \<noteq> 0 then total_fragments + 1
          else total_fragments);
       (array, data_len) \<leftarrow>
         split_fragments_loop h self fragment_header_length fragment_payload_length
           total_fragments 0 0 total_payload_length [];
       Some (Some (array, total_fragments))
     }
   }"

subsection \<open>Typed constructors\<close>

definition mbim_message_open_new ::
  "byte_order \<Rightarrow> (nat \<Rightarrow> guint8) \<Rightarrow> guint32 \<Rightarrow> guint32 \<Rightarrow> MbimMessage option" where
  "mbim_message_open_new h heap transaction_id max_control_transfer = do {
     self \<leftarrow> mbim_message_allocate h heap MBIM_MESSAGE_TYPE_OPEN transaction_id sizeof_open_message;
     poke32 h self 12 (GUINT32_TO_LE h max_control_transfer)
   }"

definition mbim_message_open_get_max_control_transfer ::
  "byte_order \<Rightarrow> MbimMessage \<Rightarrow> guint32 option" where
  "mbim_message_open_get_max_control_transfer h self = do {
     t \<leftarrow> MBIM_MESSAGE_GET_MESSAGE_TYPE h self;
     if t \<noteq> MBIM_MESSAGE_TYPE_OPEN then Some 0
     else map_option (GUINT32_FROM_LE h) (peek32 h self 12)
   }"

definition mbim_message_close_new ::
  "byte_order \<Rightarrow> (nat \<Rightarrow> guint8) \<Rightarrow> guint32 \<Rightarrow> MbimMessage option" where
  "mbim_message_close_new h heap transaction_id =
     mbim_message_allocate h heap MBIM_MESSAGE_TYPE_CLOSE transaction_id 0"

definition mbim_message_error_new ::
  "byte_order \<Rightarrow> (nat \<Rightarrow> guint8) \<Rightarrow> guint32 \<Rightarrow> guint32 \<Rightarrow> MbimMessage option" where
  "mbim_message_error_new h heap transaction_id error_status_code = do {
     self \<leftarrow> mbim_message_allocate h heap MBIM_MESSAGE_TYPE_HOST_ERROR transaction_id
               sizeof_open_message;
     poke32 h self 12 (GUINT32_TO_LE h error_status_code)
   }"

section \<open>Notions of the specification\<close>

text \<open>
  The length invariant of section 3: the header's length field, as
  \<open>mbim_message_get_message_length\<close> reads it, is the number of bytes of the array.
\<close>

definition length_invariant :: "byte_order \<Rightarrow> MbimMessage \<Rightarrow> bool" where
  "length_invariant h m \<longleftrightarrow>
     mbim_message_get_message_length h m = Some (of_nat (length m)) \<and> length m \<le> G_MAXUINT"

text \<open>
  The payload slice a descriptor points at, read from the source message: \<open>data_length\<close>
  bytes from \<open>data\<close>, when they lie inside the array.
\<close>

definition fragment_payload_slice :: "MbimMessage \<Rightarrow> struct_fragment_info \<Rightarrow> guint8 list option" where
  "fragment_payload_slice m info =
     (if 20 + data info + unat (data_length info) \<le> length m
      then Some (take (unat (data_length info)) (drop (20 + data info) m)) else None)"

text \<open>
  Modelled from the spec: the transport that writes a fragment is outside
  mbim-message.c. By sections 3 and 6 a fragment on the wire is the descriptor's header, its
  fragment header and its payload slice, in this order; the bytes of the two headers are
  the descriptor's fields as the host keeps them in memory.
\<close>

definition fragment_on_wire ::
  "byte_order \<Rightarrow> MbimMessage \<Rightarrow> struct_fragment_info \<Rightarrow> MbimMessage option" where
  "fragment_on_wire h m info = do {
     slice \<leftarrow> fragment_payload_slice m info;
     Some (host_store h (type_hdr (header info)) @ host_store h (length_hdr (header info))
           @ host_store h (transaction_id_hdr (header info))
           @ host_store h (total_fh (fragment_header info))
           @ host_store h (current_fh (fragment_header info)) @ slice)
   }"

text \<open>
  Feeding fragments through the collector, as section 4.4 describes its use: \<open>add\<close> for
  each further fragment, stopping at the first error; and the whole run, \<open>init\<close> on the
  first fragment, \<open>add\<close> on the others, then \<open>complete\<close>.
\<close>

fun collector_add_all ::
  "byte_order \<Rightarrow> MbimMessage \<Rightarrow> MbimMessage list \<Rightarrow> (MbimMessage \<times> (GError + unit)) option" where
  "collector_add_all h self [] = Some (self, Inr ())"
| "collector_add_all h self (fragment # fragments) = do {
     (self, r) \<leftarrow> mbim_message_fragment_collector_add h self fragment;
     case r of Inl e \<Rightarrow> Some (self, Inl e)
     | Inr _ \<Rightarrow> collector_add_all h self fragments
   }"

fun collector_run ::
  "byte_order \<Rightarrow> MbimMessage list \<Rightarrow> (GError + (MbimMessage \<times> bool)) option" where
  "collector_run h [] = None"
| "collector_run h (first # others) = do {
     r \<leftarrow> mbim_message_fragment_collector_init h first;
     case r of Inl e \<Rightarrow> Some (Inl e)
     | Inr self \<Rightarrow> do {
         (self, r) \<leftarrow> collector_add_all h self others;
         case r of Inl e \<Rightarrow> Some (Inl e)
         | Inr _ \<Rightarrow> do {
             (self, done) \<leftarrow> mbim_message_fragment_collector_complete h self;
             Some (Inr (self, done))
           }
       }
   }"


text \<open>
  Two notions for the proofs, free of the host's byte order: the guint32 that four bytes
  at an offset encode in little-endian order, and a message with some bytes overwritten.
\<close>

definition field32 :: "guint8 list \<Rightarrow> nat \<Rightarrow> guint32 option" where
  "field32 m off = (if off + 4 \<le> length m then Some (le_word (take 4 (drop off m))) else None)"

definition set_bytes :: "guint8 list \<Rightarrow> nat \<Rightarrow> guint8 list \<Rightarrow> guint8 list" where
  "set_bytes m off bs = take off m @ bs @ drop (off + length bs) m"

text \<open>
  Section 4.3 in its own words: the number of fragments is the quotient of payload and
  capacity rounded up, and descriptor \<open>i\<close> of a message with type \<open>t\<close>, transaction id
  \<open>tid\<close> and \<open>P\<close> payload bytes, for a capacity of \<open>F\<close> payload bytes per fragment and
  \<open>N\<close> fragments.
\<close>

definition ceil_div :: "nat \<Rightarrow> nat \<Rightarrow> nat" where
  "ceil_div P F = (P + F - 1) div F"

definition fragment_descriptor ::
  "byte_order \<Rightarrow> guint32 \<Rightarrow> guint32 \<Rightarrow> nat \<Rightarrow> nat \<Rightarrow> nat \<Rightarrow> nat \<Rightarrow> struct_fragment_info" where
  "fragment_descriptor h t tid F P N i =
     \<lparr>header = \<lparr>type_hdr = GUINT32_TO_LE h t,
                 length_hdr = GUINT32_TO_LE h (of_nat (20 + min F (P - i * F))),
                 transaction_id_hdr = GUINT32_TO_LE h tid\<rparr>,
      fragment_header = \<lparr>total_fh = GUINT32_TO_LE h (of_nat N),
                          current_fh = GUINT32_TO_LE h (of_nat i)\<rparr>,
      data_length = of_nat (min F (P - i * F)),
      data = i * F\<rparr>"

text \<open>
  The bytes of a message of a fragmented type, by the layout of section 6: header,
  fragment header and payload, every field little-endian.
\<close>

definition fragment_bytes ::
  "guint32 \<Rightarrow> guint32 \<Rightarrow> guint32 \<Rightarrow> guint32 \<Rightarrow> guint32 \<Rightarrow> guint8 list \<Rightarrow> MbimMessage" where
  "fragment_bytes t len tid tot cur payload =
     le_bytes t @ le_bytes len @ le_bytes tid @ le_bytes tot @ le_bytes cur @ payload"

text \<open>
  The GError that both collector functions set for a fragment out of sequence, as a
  function of the four numbers printed in its message.
\<close>

definition out_of_sequence :: "guint32 \<Rightarrow> guint32 \<Rightarrow> guint32 \<Rightarrow> guint32 \<Rightarrow> GError" where
  "out_of_sequence expected_current expected_total got_current got_total =
     g_set_error MBIM_PROTOCOL_ERROR MBIM_PROTOCOL_ERROR_FRAGMENT_OUT_OF_SEQUENCE
       (''Expecting fragment '' @ quote @ printf_u expected_current @ ''/''
        @ printf_u expected_total @ quote @ '', got '' @ quote
        @ printf_u got_current @ ''/'' @ printf_u got_total @ quote)"

section \<open>Little-endian encoding and the host's byte order\<close>

lemma mask_consts:
  "(0xff :: guint32) = mask 8"
  "(0xff00 :: guint32) = push_bit 8 (mask 8)"
  "(0xff0000 :: guint32) = push_bit 16 (mask 8)"
  "(0xff000000 :: guint32) = push_bit 24 (mask 8)"
  by (simp_all add: mask_eq_exp_minus_1 push_bit_eq_mult)

lemma bit_byte_of:
  "bit (ucast (drop_bit k (w :: guint32)) :: guint8) n \<longleftrightarrow> n < 8 \<and> bit w (k + n)"
  by (auto simp: bit_simps)

lemma bit_ucast_8_32:
  "bit (ucast (a :: guint8) :: guint32) n \<longleftrightarrow> n < 8 \<and> bit a n"
  by (auto simp: bit_simps dest: bit_imp_le_length)

lemma bit_le_word4:
  "bit (le_word [a, b, c, d]) n \<longleftrightarrow>
     (n < 8 \<and> bit a n) \<or> (8 \<le> n \<and> n < 16 \<and> bit b (n - 8))
     \<or> (16 \<le> n \<and> n < 24 \<and> bit c (n - 16)) \<or> (24 \<le> n \<and> n < 32 \<and> bit d (n - 24))"
  unfolding le_word_def
  by (simp add: bit_or_iff bit_push_bit_iff bit_ucast_8_32) (auto dest: bit_imp_le_length)

lemma le_bytes_alt:
  "le_bytes w = [ucast (drop_bit 0 w), ucast (drop_bit 8 w), ucast (drop_bit 16 w), ucast (drop_bit 24 w)]"
  by (simp add: le_bytes_def)

lemma le_word_le_bytes: "le_word (le_bytes w) = w"
proof (rule bit_word_eqI)
  fix n assume "n < LENGTH(32)"
  then have n: "n < 32" by simp
  consider "n < 8" | "8 \<le> n" "n < 16" | "16 \<le> n" "n < 24" | "24 \<le> n" "n < 32"
    using n by linarith
  then show "bit (le_word (le_bytes w)) n = bit w n"
    unfolding le_bytes_alt bit_le_word4 bit_byte_of
    by cases auto
qed

lemma le_bytes_le_word4: "le_bytes (le_word [a, b, c, d]) = [a, b, c, d]"
proof -
  have "ucast (drop_bit 0 (le_word [a, b, c, d])) = a" 
    by (rule bit_word_eqI) (simp only: bit_byte_of bit_le_word4, simp)
  moreover have "ucast (drop_bit 8 (le_word [a, b, c, d])) = b" 
    by (rule bit_word_eqI) (simp only: bit_byte_of bit_le_word4, simp)
  moreover have "ucast (drop_bit 16 (le_word [a, b, c, d])) = c" 
    by (rule bit_word_eqI) (simp only: bit_byte_of bit_le_word4, simp)
  moreover have "ucast (drop_bit 24 (le_word [a, b, c, d])) = d" 
    by (rule bit_word_eqI) (simp only: bit_byte_of bit_le_word4, simp)
  ultimately show ?thesis unfolding le_bytes_alt by simp
qed

lemma bit_swap:
  "bit (GUINT32_SWAP_LE_BE w) n \<longleftrightarrow>
     (n < 8 \<and> bit w (24 + n)) \<or> (8 \<le> n \<and> n < 16 \<and> bit w (8 + n))
     \<or> (16 \<le> n \<and> n < 24 \<and> bit w (n - 8)) \<or> (24 \<le> n \<and> n < 32 \<and> bit w (n - 24))"
proof -
  have a: "bit (push_bit 24 (w AND mask 8)) n \<longleftrightarrow> 24 \<le> n \<and> n < 32 \<and> bit w (n - 24)"
    by (auto simp: bit_push_bit_iff bit_and_iff bit_mask_iff dest: bit_imp_le_length)
  have b: "bit (push_bit 8 (w AND push_bit 8 (mask 8))) n \<longleftrightarrow> 16 \<le> n \<and> n < 24 \<and> bit w (n - 8)"
    by (auto simp: bit_push_bit_iff bit_and_iff bit_mask_iff dest: bit_imp_le_length)
  have c: "bit (drop_bit 8 (w AND push_bit 16 (mask 8))) n \<longleftrightarrow> 8 \<le> n \<and> n < 16 \<and> bit w (8 + n)"
    by (auto simp: bit_drop_bit_eq bit_push_bit_iff bit_and_iff bit_mask_iff dest: bit_imp_le_length)
  have d: "bit (drop_bit 24 (w AND push_bit 24 (mask 8))) n \<longleftrightarrow> n < 8 \<and> bit w (24 + n)"
    by (auto simp: bit_drop_bit_eq bit_push_bit_iff bit_and_iff bit_mask_iff dest: bit_imp_le_length)
  show ?thesis
    unfolding GUINT32_SWAP_LE_BE_def mask_consts bit_or_iff a b c d by blast
qed

lemma le_bytes_swap: "le_bytes (GUINT32_SWAP_LE_BE w) = rev (le_bytes w)"
proof -
  have "ucast (drop_bit 0 (GUINT32_SWAP_LE_BE w)) = (ucast (drop_bit 24 w) :: guint8)" 
    by (rule bit_word_eqI) (simp only: bit_byte_of bit_swap, simp)
  moreover have "ucast (drop_bit 8 (GUINT32_SWAP_LE_BE w)) = (ucast (drop_bit 16 w) :: guint8)" 
    by (rule bit_word_eqI) (simp only: bit_byte_of bit_swap, simp)
  moreover have "ucast (drop_bit 16 (GUINT32_SWAP_LE_BE w)) = (ucast (drop_bit 8 w) :: guint8)" 
    by (rule bit_word_eqI) (simp only: bit_byte_of bit_swap, simp)
  moreover have "ucast (drop_bit 24 (GUINT32_SWAP_LE_BE w)) = (ucast (drop_bit 0 w) :: guint8)" 
    by (rule bit_word_eqI) (simp only: bit_byte_of bit_swap, simp)
  ultimately show ?thesis unfolding le_bytes_alt by simp
qed

lemma length_le_bytes [simp]: "length (le_bytes w) = 4"
  by (simp add: le_bytes_def)

lemma length4E:
  assumes "length (bs :: 'a list) = 4"
  obtains a b c d where "bs = [a, b, c, d]"
  using assms by (auto simp: length_Suc_conv eval_nat_numeral)

lemma le_bytes_le_word: "length bs = 4 \<Longrightarrow> le_bytes (le_word bs) = bs"
  by (erule length4E) (simp only: le_bytes_le_word4)

lemma host_store_TO_LE: "host_store h (GUINT32_TO_LE h w) = le_bytes w"
  by (cases h) (simp_all add: host_store_def GUINT32_TO_LE_def le_bytes_swap)

lemma FROM_LE_host_load:
  assumes "length bs = 4"
  shows "GUINT32_FROM_LE h (host_load h bs) = le_word bs"
proof (cases h)
  case G_LITTLE_ENDIAN
  then show ?thesis by (simp add: GUINT32_FROM_LE_def host_load_def)
next
  case G_BIG_ENDIAN
  have "le_bytes (GUINT32_SWAP_LE_BE (le_word (rev bs))) = bs"
    using assms by (simp add: le_bytes_swap le_bytes_le_word)
  then have "le_word (le_bytes (GUINT32_SWAP_LE_BE (le_word (rev bs)))) = le_word bs"
    by simp
  then show ?thesis
    using G_BIG_ENDIAN by (simp add: GUINT32_FROM_LE_def host_load_def le_word_le_bytes)
qed

lemma host_store_host_load: "length bs = 4 \<Longrightarrow> host_store h (host_load h bs) = bs"
  by (cases h) (simp_all add: host_load_def host_store_def le_bytes_le_word)

lemma host_store_zero: "host_store h 0 = le_bytes 0"
  by (cases h) (simp_all add: host_store_def le_bytes_def)

text \<open>
  Whatever the host's byte order, a field written with \<open>GUINT32_TO_LE\<close> is little-endian in
  memory, and a field read with \<open>GUINT32_FROM_LE\<close> is decoded as little-endian.
\<close>

lemma get_le32: "map_option (GUINT32_FROM_LE h) (peek32 h m off) = field32 m off"
  by (simp add: peek32_def field32_def FROM_LE_host_load)

lemma poke_le32:
  "poke32 h m off (GUINT32_TO_LE h v) =
     (if off + 4 \<le> length m then Some (set_bytes m off (le_bytes v)) else None)"
  by (simp add: poke32_def host_store_TO_LE set_bytes_def)

lemma poke_zero:
  "poke32 h m off 0 = (if off + 4 \<le> length m then Some (set_bytes m off (le_bytes 0)) else None)"
  by (simp add: poke32_def host_store_zero set_bytes_def)

lemma poke_peek:
  "peek32 h f off = Some v \<Longrightarrow>
   poke32 h m off' v =
     (if off' + 4 \<le> length m then Some (set_bytes m off' (take 4 (drop off f))) else None)"
  by (auto simp add: poke32_def peek32_def host_store_host_load set_bytes_def split: if_splits)

lemmas accessor_defs =
  MBIM_MESSAGE_GET_MESSAGE_TYPE_def MBIM_MESSAGE_GET_MESSAGE_LENGTH_def
  MBIM_MESSAGE_GET_TRANSACTION_ID_def MBIM_MESSAGE_FRAGMENT_GET_TOTAL_def
  MBIM_MESSAGE_FRAGMENT_GET_CURRENT_def

lemma field32_append_le [simp]:
  "length xs = off \<Longrightarrow> field32 (xs @ le_bytes v @ ys) off = Some v"
  by (simp add: field32_def le_word_le_bytes)

lemma header_fields:
  "MBIM_MESSAGE_GET_MESSAGE_TYPE h m = field32 m 0"
  "MBIM_MESSAGE_GET_MESSAGE_LENGTH h m = field32 m 4"
  "MBIM_MESSAGE_GET_TRANSACTION_ID h m = field32 m 8"
  "MBIM_MESSAGE_FRAGMENT_GET_TOTAL h m = field32 m 12"
  "MBIM_MESSAGE_FRAGMENT_GET_CURRENT h m = field32 m 16"
  by (simp_all add: accessor_defs get_le32)

lemma field32_le4:
  "field32 (le_bytes a @ r) 0 = Some a"
  "field32 (le_bytes a @ le_bytes b @ r) 4 = Some b"
  "field32 (le_bytes a @ le_bytes b @ le_bytes c @ r) 8 = Some c"
  "field32 (le_bytes a @ le_bytes b @ le_bytes c @ le_bytes d @ r) 12 = Some d"
  "field32 (le_bytes a @ le_bytes b @ le_bytes c @ le_bytes d @ le_bytes e @ r) 16 = Some e"
  by (simp_all add: field32_def le_word_le_bytes)

lemma unat_of_nat32: "n \<le> G_MAXUINT \<Longrightarrow> unat (of_nat n :: guint32) = n"
  by (simp add: unat_of_nat G_MAXUINT_def)

lemma is_fragment_field:
  "MBIM_MESSAGE_IS_FRAGMENT h m =
     map_option (\<lambda>t. t = MBIM_MESSAGE_TYPE_COMMAND \<or> t = MBIM_MESSAGE_TYPE_COMMAND_DONE
                       \<or> t = MBIM_MESSAGE_TYPE_INDICATION) (field32 m 0)"
  by (cases "field32 m 0") (simp_all add: MBIM_MESSAGE_IS_FRAGMENT_def header_fields)

lemmas eval_fields =
  header_fields is_fragment_field field32_def le_word_def
  MBIM_MESSAGE_TYPE_COMMAND_def MBIM_MESSAGE_TYPE_COMMAND_DONE_def
  MBIM_MESSAGE_TYPE_INDICATION_def

lemma field32_Some_length: "field32 m off = Some v \<Longrightarrow> off + 4 \<le> length m"
  by (simp add: field32_def split: if_splits)

lemma field32_set_bytes_same:
  "off + 4 \<le> length m \<Longrightarrow> field32 (set_bytes m off (le_bytes v)) off = Some v"
  by (simp add: field32_def set_bytes_def le_word_le_bytes)

lemma length_set_bytes:
  "off + length bs \<le> length m \<Longrightarrow> length (set_bytes m off bs) = length m"
  by (simp add: set_bytes_def)

lemma take_set_bytes:
  "n \<le> off \<Longrightarrow> off \<le> length m \<Longrightarrow> take n (set_bytes m off bs) = take n m"
  by (simp add: set_bytes_def)

lemma drop_set_bytes:
  "off + length bs \<le> n \<Longrightarrow> off + length bs \<le> length m
    \<Longrightarrow> drop n (set_bytes m off bs) = drop n m"
  by (simp add: set_bytes_def)

lemma field32_set_bytes_other:
  assumes "off + length bs \<le> length m" and "o' + 4 \<le> off \<or> off + length bs \<le> o'"
  shows "field32 (set_bytes m off bs) o' = field32 m o'"
proof -
  have "take 4 (drop o' (set_bytes m off bs)) = take 4 (drop o' m)"
    using assms
  proof (elim disjE)
    assume a: "o' + 4 \<le> off"
    have "take 4 (drop o' (set_bytes m off bs)) = drop o' (take (o' + 4) (set_bytes m off bs))"
      by (simp add: drop_take)
    also have "\<dots> = drop o' (take (o' + 4) m)"
      using a assms(1) by (simp add: take_set_bytes)
    finally show ?thesis by (simp add: drop_take)
  next
    assume a: "off + length bs \<le> o'"
    then show ?thesis
      using assms(1) by (simp add: drop_set_bytes)
  qed
  then show ?thesis
    using assms(1) by (simp add: field32_def length_set_bytes)
qed


lemma g_assert_bind [simp]: "(g_assert c \<bind> f) = (if c then f () else None)"
  by (simp add: g_assert_def)

lemma field32_append:
  "off + 4 \<le> length xs \<Longrightarrow> field32 (xs @ ys) off = field32 xs off"
  by (simp add: field32_def)

lemma unat_le_G_MAXUINT: "unat (w :: guint32) \<le> G_MAXUINT"
  using unsigned_less [of w, where 'a = nat] by (simp add: G_MAXUINT_def)

lemma take_take_drop: "take a xs @ take b (drop a xs) @ drop (a + b) xs = xs"
proof -
  have "take b (drop a xs) @ drop b (drop a xs) = drop a xs"
    by (rule append_take_drop_id)
  then have "take b (drop a xs) @ drop (a + b) xs = drop a xs"
    by (simp add: add.commute)
  then show ?thesis
    by simp
qed

lemma nth_set_bytes_other:
  assumes "off + length bs \<le> length m" and "i < off \<or> off + length bs \<le> i"
  shows "set_bytes m off bs ! i = m ! i"
  using assms by (auto simp add: set_bytes_def nth_append)

lemma bytes_set_bytes_same:
  "off + length bs \<le> length m \<Longrightarrow> take (length bs) (drop off (set_bytes m off bs)) = bs"
  by (simp add: set_bytes_def)


section \<open>Typed constructors\<close>

lemma open_new_bytes:
  "mbim_message_open_new h heap tid mct = Some (le_bytes 1 @ le_bytes 16 @ le_bytes tid @ le_bytes mct)"
  by (simp add: mbim_message_open_new_def mbim_message_allocate_def poke_le32 set_bytes_def
      g_byte_array_sized_new_def g_byte_array_set_size_def sizeof_header_def sizeof_open_message_def
      MBIM_MESSAGE_TYPE_OPEN_def)

text \<open>
  C7. Whatever the host's byte order and whatever the allocated memory held,
  \<open>mbim_message_open_new tid mct\<close> is the 16-byte array of the little-endian encodings of
  1 (OPEN), 16 (the length), \<open>tid\<close> and \<open>mct\<close>, at offsets 0, 4, 8 and 12; the accessors
  read these values back; the first four bytes are 01 00 00 00; and
  \<open>mbim_message_open_new 7 4096\<close> is 01 00 00 00, 10 00 00 00, 07 00 00 00, 00 10 00 00.
\<close>

theorem open_new_byte_exact:
  "\<exists>m. mbim_message_open_new h heap tid mct = Some m
     \<and> m = le_bytes 1 @ le_bytes 16 @ le_bytes tid @ le_bytes mct
     \<and> length m = 16 \<and> take 4 m = [1, 0, 0, 0]
     \<and> mbim_message_get_message_type h m = Some MBIM_MESSAGE_TYPE_OPEN
     \<and> mbim_message_get_message_length h m = Some 16
     \<and> mbim_message_get_transaction_id h m = Some tid
     \<and> mbim_message_open_get_max_control_transfer h m = Some mct
     \<and> mbim_message_open_new h heap 7 4096
         = Some [0x01, 0, 0, 0, 0x10, 0, 0, 0, 0x07, 0, 0, 0, 0x00, 0x10, 0, 0]"
proof -
  define m where "m = le_bytes 1 @ le_bytes 16 @ le_bytes tid @ le_bytes mct"
  have "mbim_message_open_new h heap tid mct = Some m"
    by (simp add: m_def open_new_bytes)
  moreover have "length m = 16"
    by (simp add: m_def)
  moreover have "take 4 m = [1, 0, 0, 0]"
    by (simp add: m_def) (simp add: le_bytes_def)
  moreover have "mbim_message_get_message_type h m = Some MBIM_MESSAGE_TYPE_OPEN"
    by (simp add: m_def mbim_message_get_message_type_def header_fields field32_le4
        MBIM_MESSAGE_TYPE_OPEN_def)
  moreover have "mbim_message_get_message_length h m = Some 16"
    by (simp add: m_def mbim_message_get_message_length_def header_fields field32_le4)
  moreover have "mbim_message_get_transaction_id h m = Some tid"
    by (simp add: m_def mbim_message_get_transaction_id_def header_fields field32_le4)
  moreover have "mbim_message_open_get_max_control_transfer h m = Some mct"
    by (simp add: m_def mbim_message_open_get_max_control_transfer_def header_fields get_le32
        field32_le4 MBIM_MESSAGE_TYPE_OPEN_def)
      (simp add: field32_def le_word_le_bytes)
  moreover have "mbim_message_open_new h heap 7 4096
         = Some [0x01, 0, 0, 0, 0x10, 0, 0, 0, 0x07, 0, 0, 0, 0x00, 0x10, 0, 0]"
    by (simp add: open_new_bytes le_bytes_def)
  ultimately show ?thesis
    using m_def by blast
qed

section \<open>Raw access\<close>

text \<open>
  C9. \<open>mbim_message_get_raw\<close> fails, with the error "Message is empty", exactly when the
  array has no bytes; otherwise it returns the whole array and stores its number of bytes
  in the length out-parameter.
\<close>

theorem get_raw_empty_iff:
  "(mbim_message_get_raw m
      = Inl (g_set_error MBIM_CORE_ERROR MBIM_CORE_ERROR_FAILED ''Message is empty'')
    \<longleftrightarrow> length m = 0)
   \<and> ((\<exists>e. mbim_message_get_raw m = Inl e) \<longleftrightarrow> length m = 0)
   \<and> (length m \<noteq> 0 \<longrightarrow>
        (\<exists>len. mbim_message_get_raw m = Inr (m, len)
           \<and> (length m \<le> G_MAXUINT \<longrightarrow> unat len = length m)))"
  by (auto simp add: mbim_message_get_raw_def unat_of_nat32)

theorem get_raw_empty_iff_witness:
  "length [1, 2, 3 :: guint8] \<noteq> 0 \<and> length [1, 2, 3 :: guint8] \<le> G_MAXUINT
   \<and> (\<exists>len. mbim_message_get_raw [1, 2, 3] = Inr ([1, 2, 3], len) \<and> unat len = 3)"
  using get_raw_empty_iff [of "[1, 2, 3]"]
  by (auto simp add: G_MAXUINT_def)

section \<open>The fragment collector\<close>

lemma printf_u_0: "printf_u 0 = ''0''"
  by (simp add: printf_u_def decimal.simps digit_def)

lemma dup_fields:
  "mbim_message_dup h m =
     (case field32 m 4 of None \<Rightarrow> None
      | Some len \<Rightarrow> if unat len \<le> length m then Some (take (unat len) m) else None)"
proof -
  have "unat len \<le> G_MAXUINT" for len :: guint32
    using unsigned_less [of len, where 'a = nat] by (simp add: G_MAXUINT_def)
  then show ?thesis
    by (simp add: mbim_message_dup_def mbim_message_new_def g_byte_array_append_def
      g_byte_array_sized_new_def header_fields split: option.splits)
qed

lemma init_sequencing:
  assumes "MBIM_MESSAGE_IS_FRAGMENT h f = Some True"
    and "MBIM_MESSAGE_FRAGMENT_GET_CURRENT h f = Some cur"
    and "MBIM_MESSAGE_FRAGMENT_GET_TOTAL h f = Some tot"
  shows "cur \<noteq> 0 \<Longrightarrow>
      mbim_message_fragment_collector_init h f = Some (Inl (out_of_sequence 0 tot cur tot))"
    and "cur = 0 \<Longrightarrow> MBIM_MESSAGE_GET_MESSAGE_LENGTH h f = Some len \<Longrightarrow> unat len \<le> length f \<Longrightarrow>
      mbim_message_fragment_collector_init h f = Some (Inr (take (unat len) f))"
  using assms
  by (simp_all add: mbim_message_fragment_collector_init_def out_of_sequence_def printf_u_0
      dup_fields header_fields)

lemma add_sequencing:
  assumes "MBIM_MESSAGE_IS_FRAGMENT h self = Some True"
    and "MBIM_MESSAGE_IS_FRAGMENT h fragment = Some True"
    and "MBIM_MESSAGE_FRAGMENT_GET_CURRENT h self = Some sc"
    and "MBIM_MESSAGE_FRAGMENT_GET_TOTAL h self = Some st"
    and "MBIM_MESSAGE_FRAGMENT_GET_CURRENT h fragment = Some fc"
    and "MBIM_MESSAGE_FRAGMENT_GET_TOTAL h fragment = Some ft"
    and "fc \<noteq> sc + 1"
  shows "mbim_message_fragment_collector_add h self fragment
           = Some (self, Inl (out_of_sequence (sc + 1) st fc ft))"
proof -
  have "sc \<noteq> fc - 1"
    using assms(7) by auto
  then show ?thesis
    using assms
    by (simp add: mbim_message_fragment_collector_add_def out_of_sequence_def)
qed


lemma succ_eq_nat:
  fixes cur tot :: guint32
  assumes "tot \<noteq> 0"
  shows "cur + 1 = tot \<longleftrightarrow> unat cur + 1 = unat tot"
proof
  assume eq: "cur + 1 = tot"
  have "unat (cur + 1) = (unat cur + 1) mod 2 ^ 32"
    by (simp add: unat_word_ariths)
  moreover have "unat cur + 1 \<le> 2 ^ 32"
    using unsigned_less [of cur, where 'a = nat] by simp
  moreover have "unat (cur + 1) \<noteq> 0"
    using eq assms by (simp add: unat_eq_zero)
  ultimately have "unat (cur + 1) = unat cur + 1"
    by (cases "unat cur + 1 = 2 ^ 32") simp_all
  then show "unat cur + 1 = unat tot"
    using eq by simp
next
  assume "unat cur + 1 = unat tot"
  then have "(of_nat (unat cur + 1) :: guint32) = of_nat (unat tot)"
    by simp
  then show "cur + 1 = tot"
    by (simp add: add.commute)
qed

lemma complete_fields:
  "mbim_message_fragment_collector_complete h m =
     (case (MBIM_MESSAGE_IS_FRAGMENT h m, field32 m 16, field32 m 12) of
        (Some True, Some cur, Some tot) \<Rightarrow>
          Some (if cur \<noteq> tot - 1 then (m, False)
                else (set_bytes (set_bytes m 16 (le_bytes 0)) 12 (le_bytes 1), True))
      | _ \<Rightarrow> None)"
  by (auto simp add: mbim_message_fragment_collector_complete_def header_fields poke_zero
      poke_le32 length_set_bytes split: option.splits bool.splits dest: field32_Some_length)

lemma normalized_bytes:
  "20 \<le> length m \<Longrightarrow>
   set_bytes (set_bytes m 16 (le_bytes 0)) 12 (le_bytes 1)
     = take 12 m @ le_bytes 1 @ le_bytes 0 @ drop 20 m"
  by (simp add: set_bytes_def)

lemma add_accept:
  assumes "MBIM_MESSAGE_IS_FRAGMENT h self = Some True"
    and "MBIM_MESSAGE_IS_FRAGMENT h fragment = Some True"
    and "field32 self 16 = Some sc" and "field32 fragment 16 = Some fc" and "sc = fc - 1"
    and "field32 self 4 = Some sl" and "field32 fragment 4 = Some fl"
  shows "mbim_message_fragment_collector_add h self fragment =
    (if fl - 20 = 0 then Some (set_bytes self 16 (take 4 (drop 16 fragment)), Inr ())
     else if 20 + unat (fl - 20) \<le> length fragment \<and> length self + unat (fl - 20) \<le> G_MAXUINT
     then Some (set_bytes (set_bytes (self @ take (unat (fl - 20)) (drop 20 fragment)) 4
                   (le_bytes (sl + (fl - 20)))) 16 (take 4 (drop 16 fragment)), Inr ())
     else None)"
proof -
  have ls: "20 \<le> length self" and lf: "20 \<le> length fragment"
    using assms(3,4) by (auto dest: field32_Some_length)
  obtain raw where raw: "peek32 h fragment 16 = Some raw"
    using lf by (auto simp: peek32_def)
  have payload: "mbim_message_fragment_get_payload h fragment = Some (drop 20 fragment, fl - 20)"
    using assms(2,7)
    by (simp add: mbim_message_fragment_get_payload_def header_fields sizeof_header_def
        sizeof_fragment_header_def diff_diff_eq)
  have le: "unat (fl - 20) \<le> length fragment - 20 \<longleftrightarrow> 20 + unat (fl - 20) \<le> length fragment"
    using lf by auto
  show ?thesis
    using assms(1-6) ls lf
    by (simp add: mbim_message_fragment_collector_add_def header_fields payload
        g_byte_array_append_def field32_append poke_le32 raw poke_peek [OF raw] length_set_bytes le)
qed

lemma add_error_unchanged:
  assumes "mbim_message_fragment_collector_add h self fragment = Some (self', Inl e)"
  shows "self' = self"
  using assms unfolding mbim_message_fragment_collector_add_def
  by (clarsimp simp add: bind_eq_Some_conv split: if_split_asm prod.splits)

lemma complete_false_unchanged:
  assumes "mbim_message_fragment_collector_complete h self = Some (self', False)"
  shows "self' = self"
  using assms unfolding mbim_message_fragment_collector_complete_def
  by (clarsimp simp add: bind_eq_Some_conv split: if_split_asm)


text \<open>
  C4. For a message of a fragmented type whose fragment header is in the array,
  \<open>_mbim_message_fragment_collector_complete\<close> returns TRUE exactly when
  \<open>current + 1 = total\<close> (in guint32 arithmetic, and as numbers whenever \<open>total\<close> is
  not 0). When it does, the bytes 12 to 20 become
  the little-endian encodings of \<open>total = 1\<close> and \<open>current = 0\<close> and nothing else changes:
  type, length and transaction id are those of before. When it returns FALSE the message
  is as before.
\<close>

theorem collector_complete_iff:
  assumes "MBIM_MESSAGE_IS_FRAGMENT h m = Some True"
    and "MBIM_MESSAGE_FRAGMENT_GET_CURRENT h m = Some cur"
    and "MBIM_MESSAGE_FRAGMENT_GET_TOTAL h m = Some tot"
  shows "\<exists>m' done. mbim_message_fragment_collector_complete h m = Some (m', done)
     \<and> (done \<longleftrightarrow> cur + 1 = tot)
     \<and> (tot \<noteq> 0 \<longrightarrow> (done \<longleftrightarrow> unat cur + 1 = unat tot))
     \<and> (if done
        then m' = take 12 m @ le_bytes 1 @ le_bytes 0 @ drop 20 m
          \<and> length m' = length m
          \<and> MBIM_MESSAGE_FRAGMENT_GET_CURRENT h m' = Some 0
          \<and> MBIM_MESSAGE_FRAGMENT_GET_TOTAL h m' = Some 1
          \<and> MBIM_MESSAGE_GET_MESSAGE_TYPE h m' = MBIM_MESSAGE_GET_MESSAGE_TYPE h m
          \<and> MBIM_MESSAGE_GET_MESSAGE_LENGTH h m' = MBIM_MESSAGE_GET_MESSAGE_LENGTH h m
          \<and> MBIM_MESSAGE_GET_TRANSACTION_ID h m' = MBIM_MESSAGE_GET_TRANSACTION_ID h m
        else m' = m)"
proof -
  have len: "20 \<le> length m"
    using assms(2) by (auto simp: header_fields dest: field32_Some_length)
  have iff: "cur = tot - 1 \<longleftrightarrow> cur + 1 = tot"
    by auto
  define m' where "m' = take 12 m @ le_bytes 1 @ le_bytes 0 @ drop 20 m"
  have c: "mbim_message_fragment_collector_complete h m
            = Some (if cur + 1 = tot then (m', True) else (m, False))"
    using assms len by (simp add: complete_fields header_fields normalized_bytes iff m'_def)
  have m'_set: "m' = set_bytes (set_bytes m 16 (le_bytes 0)) 12 (le_bytes 1)"
    using len by (simp add: m'_def normalized_bytes)
  have "length m' = length m"
    using len by (simp add: m'_def)
  moreover have "field32 m' 16 = Some 0" "field32 m' 12 = Some 1"
    using len by (simp_all add: m'_def field32_def le_word_le_bytes)
  moreover have "field32 m' 0 = field32 m 0" "field32 m' 4 = field32 m 4"
    "field32 m' 8 = field32 m 8"
    using len by (simp_all add: m'_set field32_set_bytes_other length_set_bytes)
  moreover have "tot \<noteq> 0 \<Longrightarrow> (cur + 1 = tot) = (unat cur + 1 = unat tot)"
    by (rule succ_eq_nat)
  ultimately show ?thesis
    using c by (auto simp add: header_fields m'_def)
qed


theorem collector_complete_iff_witness:
  "mbim_message_fragment_collector_complete G_BIG_ENDIAN
     [3,0,0,0, 24,0,0,0, 9,0,0,0, 2,0,0,0, 1,0,0,0, 0xAA,0xBB,0xCC,0xDD]
     = Some ([3,0,0,0, 24,0,0,0, 9,0,0,0, 1,0,0,0, 0,0,0,0, 0xAA,0xBB,0xCC,0xDD], True)"
proof -
  define c :: MbimMessage
    where "c = [3,0,0,0, 24,0,0,0, 9,0,0,0, 2,0,0,0, 1,0,0,0, 0xAA,0xBB,0xCC,0xDD]"
  have c: "MBIM_MESSAGE_IS_FRAGMENT G_BIG_ENDIAN c = Some True"
    "MBIM_MESSAGE_FRAGMENT_GET_CURRENT G_BIG_ENDIAN c = Some 1"
    "MBIM_MESSAGE_FRAGMENT_GET_TOTAL G_BIG_ENDIAN c = Some 2"
    by (simp_all add: c_def eval_fields)
  have "take 12 c @ le_bytes 1 @ le_bytes 0 @ drop 20 c
     = [3,0,0,0, 24,0,0,0, 9,0,0,0, 1,0,0,0, 0,0,0,0, 0xAA,0xBB,0xCC,0xDD]"
    by (simp add: c_def le_bytes_def)
  with collector_complete_iff [OF c] show ?thesis
    unfolding c_def by auto
qed

text \<open>
  C8. When \<open>_mbim_message_fragment_collector_add\<close> accepts a fragment, with \<open>n\<close> the
  fragment's length field minus 20: the collector's message grows by the \<open>n\<close> bytes that
  follow the fragment's fragment header, appended at the end; its length field grows by
  \<open>n\<close> (in guint32 arithmetic); its \<open>current\<close> field becomes the fragment's, byte for
  byte; type, transaction id and \<open>total\<close> are unchanged, and so is every byte stored
  before, apart from the length field (bytes 4 to 8) and \<open>current\<close> (bytes 16 to 20).
\<close>

theorem collector_add_frame:
  assumes "mbim_message_fragment_collector_add h self fragment = Some (self', Inr ())"
  shows "\<exists>sl fl n. MBIM_MESSAGE_GET_MESSAGE_LENGTH h self = Some sl
      \<and> MBIM_MESSAGE_GET_MESSAGE_LENGTH h fragment = Some fl
      \<and> n = unat (fl - 20) \<and> 20 + n \<le> length fragment
      \<and> length self' = length self + n
      \<and> drop (length self) self' = take n (drop 20 fragment)
      \<and> MBIM_MESSAGE_GET_MESSAGE_LENGTH h self' = Some (sl + of_nat n)
      \<and> take 4 (drop 16 self') = take 4 (drop 16 fragment)
      \<and> MBIM_MESSAGE_FRAGMENT_GET_CURRENT h self' = MBIM_MESSAGE_FRAGMENT_GET_CURRENT h fragment
      \<and> MBIM_MESSAGE_GET_MESSAGE_TYPE h self' = MBIM_MESSAGE_GET_MESSAGE_TYPE h self
      \<and> MBIM_MESSAGE_GET_TRANSACTION_ID h self' = MBIM_MESSAGE_GET_TRANSACTION_ID h self
      \<and> MBIM_MESSAGE_FRAGMENT_GET_TOTAL h self' = MBIM_MESSAGE_FRAGMENT_GET_TOTAL h self
      \<and> (\<forall>i < length self. \<not> (4 \<le> i \<and> i < 8) \<and> \<not> (16 \<le> i \<and> i < 20) \<longrightarrow> self' ! i = self ! i)"
proof -
  from assms obtain sc fc where
    fs: "MBIM_MESSAGE_IS_FRAGMENT h self = Some True"
    and ff: "MBIM_MESSAGE_IS_FRAGMENT h fragment = Some True"
    and sc: "field32 self 16 = Some sc" and fc: "field32 fragment 16 = Some fc"
    and eq: "sc = fc - 1"
    unfolding mbim_message_fragment_collector_add_def
    by (auto simp add: bind_eq_Some_conv header_fields split: if_split_asm)
  have ls: "20 \<le> length self" and lf: "20 \<le> length fragment"
    using sc fc by (auto dest: field32_Some_length)
  obtain sl fl where sl: "field32 self 4 = Some sl" and fl: "field32 fragment 4 = Some fl"
    using ls lf by (auto simp: field32_def)
  define n where "n = unat (fl - 20)"
  have n_word: "(of_nat n :: guint32) = fl - 20"
    by (simp add: n_def)
  note acc = add_accept [OF fs ff sc fc eq sl fl]
  have bounds: "20 + n \<le> length fragment"
    using assms acc lf by (auto simp add: n_def unat_eq_zero split: if_split_asm)
  define app where "app = self @ take n (drop 20 fragment)"
  have self'_eq: "self' = set_bytes (set_bytes app 4 (le_bytes (sl + (fl - 20)))) 16
                    (take 4 (drop 16 fragment))"
  proof (cases "fl - 20 = 0")
    case True
    then have "n = 0" by (simp add: n_def)
    then have a: "app = self" by (simp add: app_def)
    have "le_bytes sl = take 4 (drop 4 self)"
      using sl ls by (auto simp add: field32_def le_bytes_le_word)
    then have "set_bytes self 4 (le_bytes (sl + (fl - 20))) = self"
      using True ls take_take_drop [of 4 self 4] by (simp add: set_bytes_def)
    then show ?thesis
      using assms acc True by (simp add: a)
  next
    case False
    then show ?thesis
      using assms acc by (auto simp add: app_def n_def split: if_split_asm)
  qed
  have la: "length app = length self + n"
    using bounds by (simp add: app_def)
  define mid where "mid = set_bytes app 4 (le_bytes (sl + (fl - 20)))"
  have self'_mid: "self' = set_bytes mid 16 (take 4 (drop 16 fragment))"
    by (simp add: self'_eq mid_def)
  have l4: "length (take 4 (drop 16 fragment)) = 4"
    using lf by simp
  have lmid: "length mid = length app"
    using la ls by (simp add: mid_def length_set_bytes)
  have lself': "length self' = length self + n"
    using la lmid ls l4 by (simp add: self'_mid length_set_bytes)
  have nth_mid: "mid ! i = app ! i" if "\<not> (4 \<le> i \<and> i < 8)" for i
    unfolding mid_def using that la ls by (intro nth_set_bytes_other) auto
  have nth_self': "self' ! i = mid ! i" if "\<not> (16 \<le> i \<and> i < 20)" for i
    unfolding self'_mid using that la ls lmid l4 by (intro nth_set_bytes_other) auto
  have nth_app: "self' ! i = app ! i"
    if "\<not> (4 \<le> i \<and> i < 8)" "\<not> (16 \<le> i \<and> i < 20)" for i
    using that nth_mid nth_self' by simp
  have tail: "drop (length self) self' = take n (drop 20 fragment)"
  proof (rule nth_equalityI)
    show "length (drop (length self) self') = length (take n (drop 20 fragment))"
      using lself' bounds by simp
  next
    fix i assume "i < length (drop (length self) self')"
    then have i: "i < n" using lself' by simp
    have "self' ! (length self + i) = app ! (length self + i)"
      using ls by (intro nth_app) auto
    then show "drop (length self) self' ! i = take n (drop 20 fragment) ! i"
      using i lself' by (simp add: app_def nth_append)
  qed
  have f4: "field32 self' 4 = Some (sl + of_nat n)"
  proof -
    have "field32 self' 4 = field32 mid 4"
      unfolding self'_mid using la lmid ls l4 by (intro field32_set_bytes_other) auto
    also have "\<dots> = Some (sl + of_nat n)"
      unfolding mid_def n_word using la ls by (intro field32_set_bytes_same) auto
    finally show ?thesis .
  qed
  have cur_bytes: "take 4 (drop 16 self') = take 4 (drop 16 fragment)"
    using bytes_set_bytes_same [of 16 "take 4 (drop 16 fragment)" mid] la lmid ls l4
    by (simp add: self'_mid)
  then have f16: "field32 self' 16 = field32 fragment 16"
    using lself' ls lf by (simp add: field32_def)
  have other: "field32 self' off = field32 self off" if "off = 0 \<or> off = 8 \<or> off = 12" for off
  proof -
    have "field32 self' off = field32 mid off"
      unfolding self'_mid using that la lmid ls l4 by (intro field32_set_bytes_other) auto
    also have "\<dots> = field32 app off"
      unfolding mid_def using that la ls by (intro field32_set_bytes_other) auto
    also have "\<dots> = field32 self off"
      unfolding app_def using that ls by (intro field32_append) auto
    finally show ?thesis .
  qed
  have frame: "\<forall>i < length self. \<not> (4 \<le> i \<and> i < 8) \<and> \<not> (16 \<le> i \<and> i < 20) \<longrightarrow> self' ! i = self ! i"
    using nth_app la by (auto simp add: app_def nth_append)
  show ?thesis
    using sl fl bounds lself' tail f4 cur_bytes f16 other frame
    by (simp add: header_fields n_def)
qed


theorem collector_add_frame_witness:
  "mbim_message_fragment_collector_add G_BIG_ENDIAN
     [3,0,0,0, 24,0,0,0, 9,0,0,0, 2,0,0,0, 0,0,0,0, 0xAA,0xBB,0xCC,0xDD]
     [3,0,0,0, 22,0,0,0, 9,0,0,0, 2,0,0,0, 1,0,0,0, 0xEE,0xFF]
     = Some ([3,0,0,0, 26,0,0,0, 9,0,0,0, 2,0,0,0, 1,0,0,0, 0xAA,0xBB,0xCC,0xDD, 0xEE,0xFF],
             Inr ())
   \<and> MBIM_MESSAGE_GET_MESSAGE_LENGTH G_BIG_ENDIAN
     [3,0,0,0, 26,0,0,0, 9,0,0,0, 2,0,0,0, 1,0,0,0, 0xAA,0xBB,0xCC,0xDD, 0xEE,0xFF]
     = Some (24 + 2)"
proof -
  define c :: MbimMessage
    where "c = [3,0,0,0, 24,0,0,0, 9,0,0,0, 2,0,0,0, 0,0,0,0, 0xAA,0xBB,0xCC,0xDD]"
  define f :: MbimMessage
    where "f = [3,0,0,0, 22,0,0,0, 9,0,0,0, 2,0,0,0, 1,0,0,0, 0xEE,0xFF]"
  define c' :: MbimMessage
    where "c' = [3,0,0,0, 26,0,0,0, 9,0,0,0, 2,0,0,0, 1,0,0,0, 0xAA,0xBB,0xCC,0xDD, 0xEE,0xFF]"
  have c: "MBIM_MESSAGE_IS_FRAGMENT G_BIG_ENDIAN c = Some True"
    "field32 c 16 = Some 0" "field32 c 4 = Some 24"
    by (simp_all add: c_def eval_fields)
  have f: "MBIM_MESSAGE_IS_FRAGMENT G_BIG_ENDIAN f = Some True"
    "field32 f 16 = Some 1" "field32 f 4 = Some 22"
    by (simp_all add: f_def eval_fields)
  have add: "mbim_message_fragment_collector_add G_BIG_ENDIAN c f = Some (c', Inr ())"
    using add_accept [OF c(1) f(1) c(2) f(2) _ c(3) f(3)]
    by (simp add: c_def f_def c'_def set_bytes_def le_bytes_def G_MAXUINT_def)
  from collector_add_frame [OF add]
  have "MBIM_MESSAGE_GET_MESSAGE_LENGTH G_BIG_ENDIAN c' = Some (24 + 2)"
    using c f by (auto simp add: header_fields)
  with add show ?thesis
    unfolding c_def f_def c'_def by simp
qed


lemma out_of_sequence_sel:
  "domain (out_of_sequence ec et gc gt) = MBIM_PROTOCOL_ERROR"
  "code (out_of_sequence ec et gc gt) = MBIM_PROTOCOL_ERROR_FRAGMENT_OUT_OF_SEQUENCE"
  "message (out_of_sequence ec et gc gt)
       = ''Expecting fragment '' @ [CHR 0x27] @ printf_u ec @ ''/'' @ printf_u et @ [CHR 0x27]
         @ '', got '' @ [CHR 0x27] @ printf_u gc @ ''/'' @ printf_u gt @ [CHR 0x27]"
  by (simp_all add: out_of_sequence_def g_set_error_def quote_def)

lemma printf_u_1_2: "printf_u 1 = ''1''" "printf_u 2 = ''2''"
  by (simp_all add: printf_u_def decimal.simps digit_def)

lemma out_of_sequence_example:
  "message (out_of_sequence 1 2 2 2)
       = ''Expecting fragment '' @ [CHR 0x27] @ ''1/2'' @ [CHR 0x27]
         @ '', got '' @ [CHR 0x27] @ ''2/2'' @ [CHR 0x27]"
  unfolding out_of_sequence_sel printf_u_1_2 by simp

lemma init_success_current:
  assumes "MBIM_MESSAGE_IS_FRAGMENT h f = Some True"
    and "MBIM_MESSAGE_FRAGMENT_GET_CURRENT h f = Some cur"
    and "MBIM_MESSAGE_FRAGMENT_GET_TOTAL h f = Some tot"
    and "mbim_message_fragment_collector_init h f = Some (Inr copy)"
  shows "cur = 0"
proof (rule ccontr)
  assume "cur \<noteq> 0"
  from init_sequencing(1) [OF assms(1-3) this] assms(4) show False by simp
qed

text \<open>
  C3. For a fragment of a fragmented type whose fragment header is in the array:
  \<open>_mbim_message_fragment_collector_init\<close> fails with the protocol error
  FRAGMENT_OUT_OF_SEQUENCE when \<open>current\<close> is not 0, and only when \<open>current\<close> is 0 does it
  return a message, the copy of the first \<open>length\<close> bytes of the fragment (when the array
  holds that many). \<open>_mbim_message_fragment_collector_add\<close> fails with the same error when
  the fragment's \<open>current\<close> is not the collector's \<open>current + 1\<close> (guint32 arithmetic), and
  leaves the collector's message as it was. The message of the error names the expected
  index and total and the ones received: for fragment 2/2 after fragment 0 it is
  "Expecting fragment '1/2', got '2/2'".
\<close>

theorem collector_sequencing:
  "(MBIM_MESSAGE_IS_FRAGMENT h f = Some True
      \<and> MBIM_MESSAGE_FRAGMENT_GET_CURRENT h f = Some cur
      \<and> MBIM_MESSAGE_FRAGMENT_GET_TOTAL h f = Some tot \<longrightarrow>
      (cur \<noteq> 0 \<longrightarrow>
         mbim_message_fragment_collector_init h f = Some (Inl (out_of_sequence 0 tot cur tot)))
      \<and> (cur = 0 \<and> MBIM_MESSAGE_GET_MESSAGE_LENGTH h f = Some len \<and> unat len \<le> length f \<longrightarrow>
         mbim_message_fragment_collector_init h f = Some (Inr (take (unat len) f)))
      \<and> ((\<exists>copy. mbim_message_fragment_collector_init h f = Some (Inr copy)) \<longrightarrow> cur = 0))
   \<and> (MBIM_MESSAGE_IS_FRAGMENT h self = Some True
      \<and> MBIM_MESSAGE_IS_FRAGMENT h fragment = Some True
      \<and> MBIM_MESSAGE_FRAGMENT_GET_CURRENT h self = Some sc
      \<and> MBIM_MESSAGE_FRAGMENT_GET_TOTAL h self = Some st
      \<and> MBIM_MESSAGE_FRAGMENT_GET_CURRENT h fragment = Some fc
      \<and> MBIM_MESSAGE_FRAGMENT_GET_TOTAL h fragment = Some ft
      \<and> fc \<noteq> sc + 1 \<longrightarrow>
      mbim_message_fragment_collector_add h self fragment
        = Some (self, Inl (out_of_sequence (sc + 1) st fc ft)))
   \<and> domain (out_of_sequence ec et gc gt) = MBIM_PROTOCOL_ERROR
   \<and> code (out_of_sequence ec et gc gt) = MBIM_PROTOCOL_ERROR_FRAGMENT_OUT_OF_SEQUENCE
   \<and> message (out_of_sequence ec et gc gt)
       = ''Expecting fragment '' @ [CHR 0x27] @ printf_u ec @ ''/'' @ printf_u et @ [CHR 0x27]
         @ '', got '' @ [CHR 0x27] @ printf_u gc @ ''/'' @ printf_u gt @ [CHR 0x27]
   \<and> message (out_of_sequence 1 2 2 2)
       = ''Expecting fragment '' @ [CHR 0x27] @ ''1/2'' @ [CHR 0x27]
         @ '', got '' @ [CHR 0x27] @ ''2/2'' @ [CHR 0x27]"
  (is "?init \<and> ?add \<and> ?d \<and> ?c \<and> ?m \<and> ?ex")
proof (intro conjI)
  show ?init
    using init_sequencing(1) [of h f cur tot] init_sequencing(2) [of h f cur tot len]
      init_success_current [of h f cur tot]
    by blast
  show ?add
    using add_sequencing [of h self fragment sc st fc ft] by blast
  show ?d ?c ?m
    by (fact out_of_sequence_sel)+
  show ?ex
    by (fact out_of_sequence_example)
qed

theorem collector_sequencing_witness:
  "mbim_message_fragment_collector_init G_LITTLE_ENDIAN
     [3,0,0,0, 24,0,0,0, 9,0,0,0, 2,0,0,0, 0,0,0,0, 0xAA,0xBB,0xCC,0xDD]
     = Some (Inr [3,0,0,0, 24,0,0,0, 9,0,0,0, 2,0,0,0, 0,0,0,0, 0xAA,0xBB,0xCC,0xDD])
   \<and> mbim_message_fragment_collector_add G_LITTLE_ENDIAN
     [3,0,0,0, 24,0,0,0, 9,0,0,0, 2,0,0,0, 0,0,0,0, 0xAA,0xBB,0xCC,0xDD]
     [3,0,0,0, 22,0,0,0, 9,0,0,0, 2,0,0,0, 2,0,0,0, 0xEE,0xFF]
     = Some ([3,0,0,0, 24,0,0,0, 9,0,0,0, 2,0,0,0, 0,0,0,0, 0xAA,0xBB,0xCC,0xDD],
             Inl (out_of_sequence 1 2 2 2))
   \<and> mbim_message_fragment_collector_init G_LITTLE_ENDIAN
     [3,0,0,0, 22,0,0,0, 9,0,0,0, 2,0,0,0, 2,0,0,0, 0xEE,0xFF]
     = Some (Inl (out_of_sequence 0 2 2 2))"
proof -
  define f0 :: MbimMessage
    where "f0 = [3,0,0,0, 24,0,0,0, 9,0,0,0, 2,0,0,0, 0,0,0,0, 0xAA,0xBB,0xCC,0xDD]"
  define f2 :: MbimMessage
    where "f2 = [3,0,0,0, 22,0,0,0, 9,0,0,0, 2,0,0,0, 2,0,0,0, 0xEE,0xFF]"
  have f0: "MBIM_MESSAGE_IS_FRAGMENT G_LITTLE_ENDIAN f0 = Some True"
    "MBIM_MESSAGE_FRAGMENT_GET_CURRENT G_LITTLE_ENDIAN f0 = Some 0"
    "MBIM_MESSAGE_FRAGMENT_GET_TOTAL G_LITTLE_ENDIAN f0 = Some 2"
    "MBIM_MESSAGE_GET_MESSAGE_LENGTH G_LITTLE_ENDIAN f0 = Some 24"
    "unat (24 :: guint32) \<le> length f0" "take (unat (24 :: guint32)) f0 = f0"
    by (simp_all add: f0_def eval_fields)
  have f2: "MBIM_MESSAGE_IS_FRAGMENT G_LITTLE_ENDIAN f2 = Some True"
    "MBIM_MESSAGE_FRAGMENT_GET_CURRENT G_LITTLE_ENDIAN f2 = Some 2"
    "MBIM_MESSAGE_FRAGMENT_GET_TOTAL G_LITTLE_ENDIAN f2 = Some 2"
    by (simp_all add: f2_def eval_fields)
  have "mbim_message_fragment_collector_init G_LITTLE_ENDIAN f0 = Some (Inr f0)"
    using collector_sequencing [of G_LITTLE_ENDIAN f0 0 2 24] f0 by simp
  moreover have "mbim_message_fragment_collector_add G_LITTLE_ENDIAN f0 f2
      = Some (f0, Inl (out_of_sequence 1 2 2 2))"
    using collector_sequencing [of G_LITTLE_ENDIAN _ _ _ _ f0 f2 0 2 2 2] f0 f2 by simp
  moreover have "mbim_message_fragment_collector_init G_LITTLE_ENDIAN f2
      = Some (Inl (out_of_sequence 0 2 2 2))"
    using collector_sequencing [of G_LITTLE_ENDIAN f2 2 2] f2 by simp
  ultimately show ?thesis
    by (simp add: f0_def f2_def)
qed


text \<open>
  C10. A call of \<open>_mbim_message_fragment_collector_add\<close> that returns an error leaves the
  collector's message byte for byte as it was, and so does a call of
  \<open>_mbim_message_fragment_collector_complete\<close> that returns FALSE.
\<close>

theorem collector_failure_atomic:
  "(mbim_message_fragment_collector_add h self fragment = Some (self', Inl e) \<longrightarrow> self' = self)
   \<and> (mbim_message_fragment_collector_complete h self = Some (self'', False) \<longrightarrow> self'' = self)"
  using add_error_unchanged [of h self fragment self' e]
    complete_false_unchanged [of h self self'']
  by blast

theorem collector_failure_atomic_witness:
  "(\<exists>e. mbim_message_fragment_collector_add G_BIG_ENDIAN
     [3,0,0,0, 24,0,0,0, 9,0,0,0, 3,0,0,0, 0,0,0,0, 0xAA,0xBB,0xCC,0xDD]
     [3,0,0,0, 22,0,0,0, 9,0,0,0, 3,0,0,0, 2,0,0,0, 0xEE,0xFF]
     = Some ([3,0,0,0, 24,0,0,0, 9,0,0,0, 3,0,0,0, 0,0,0,0, 0xAA,0xBB,0xCC,0xDD], Inl e))
   \<and> mbim_message_fragment_collector_complete G_BIG_ENDIAN
     [3,0,0,0, 24,0,0,0, 9,0,0,0, 3,0,0,0, 0,0,0,0, 0xAA,0xBB,0xCC,0xDD]
     = Some ([3,0,0,0, 24,0,0,0, 9,0,0,0, 3,0,0,0, 0,0,0,0, 0xAA,0xBB,0xCC,0xDD], False)"
proof -
  define c :: MbimMessage
    where "c = [3,0,0,0, 24,0,0,0, 9,0,0,0, 3,0,0,0, 0,0,0,0, 0xAA,0xBB,0xCC,0xDD]"
  define f :: MbimMessage
    where "f = [3,0,0,0, 22,0,0,0, 9,0,0,0, 3,0,0,0, 2,0,0,0, 0xEE,0xFF]"
  have c: "MBIM_MESSAGE_IS_FRAGMENT G_BIG_ENDIAN c = Some True"
    "field32 c 16 = Some 0" "field32 c 12 = Some 3"
    by (simp_all add: c_def eval_fields)
  have f: "MBIM_MESSAGE_IS_FRAGMENT G_BIG_ENDIAN f = Some True"
    "field32 f 16 = Some 2" "field32 f 12 = Some 3"
    by (simp_all add: f_def eval_fields)
  obtain c' e where add: "mbim_message_fragment_collector_add G_BIG_ENDIAN c f = Some (c', Inl e)"
    using c f by (simp add: mbim_message_fragment_collector_add_def header_fields)
  obtain c'' where
    comp: "mbim_message_fragment_collector_complete G_BIG_ENDIAN c = Some (c'', False)"
    using c by (simp add: complete_fields)
  from collector_failure_atomic [of G_BIG_ENDIAN c f c' e c''] add comp
  have "c' = c" "c'' = c" by simp_all
  with add comp show ?thesis
    unfolding c_def f_def by blast
qed

section \<open>The fragment codec\<close>

lemma ceil_div_less:
  assumes "0 < F" and "k < ceil_div P F"
  shows "k * F < P"
proof -
  have "Suc k \<le> (P + F - 1) div F"
    using assms(2) by (simp add: ceil_div_def)
  then have "Suc k * F \<le> P + F - 1"
    using assms(1) by (simp add: less_eq_div_iff_mult_less_eq)
  then show ?thesis
    using assms(1) by simp
qed

lemma ceil_div_ge:
  assumes "0 < F"
  shows "P \<le> ceil_div P F * F"
proof -
  have "P + F - 1 < F + ((P + F - 1) div F) * F"
    using assms by (rule dividend_less_div_times)
  then show ?thesis
    by (simp add: ceil_div_def)
qed

lemma ceil_div_code:
  assumes "0 < F"
  shows "ceil_div P F = (if P mod F \<noteq> 0 then P div F + 1 else P div F)"
proof -
  define d r where "d = P div F" and "r = P mod F"
  have P: "P = F * d + r" and r: "r < F"
    using assms by (simp_all add: d_def r_def)
  have "(P + F - 1) div F = (if r \<noteq> 0 then d + 1 else d)"
  proof (rule div_nat_eqI)
    show "F * (if r \<noteq> 0 then d + 1 else d) \<le> P + F - 1"
      using P r by (auto simp add: algebra_simps)
    show "P + F - 1 < F * Suc (if r \<noteq> 0 then d + 1 else d)"
      using P r by (auto simp add: algebra_simps)
  qed
  then show ?thesis
    by (simp add: ceil_div_def d_def r_def)
qed


lemma unat_succ_less:
  fixes i N :: guint32
  assumes "i < N"
  shows "unat (i + 1) = Suc (unat i)"
proof -
  have "unat i < unat N"
    using assms by (simp add: word_less_nat_alt)
  moreover have "unat N < 2 ^ 32"
    using unsigned_less [of N, where 'a = nat] by simp
  ultimately show ?thesis
    by (simp add: unat_word_ariths)
qed

lemma split_loop_closed:
  fixes F P N i data_len :: guint32
  assumes t: "field32 self 0 = Some t" and tid: "field32 self 8 = Some tid"
    and F: "0 < unat F" and N: "unat N = ceil_div (unat P) (unat F)"
    and i: "unat i \<le> unat N"
    and dp: "data_p = min (unat i * unat F) (unat P)"
    and dl: "unat data_len = unat P - data_p"
  shows "split_fragments_loop h self 20 F N i data_p data_len array
          = Some (array @ map (fragment_descriptor h t tid (unat F) (unat P) (unat N))
                           [unat i ..< unat N], 0)"
  using i dp dl
proof (induction "unat N - unat i" arbitrary: i data_p data_len array)
  case 0
  then have eq: "unat i = unat N"
    by simp
  then have "\<not> i < N"
    by (simp add: word_less_nat_alt)
  moreover have "unat P \<le> unat N * unat F"
    using ceil_div_ge [OF F] N by simp
  then have "unat data_len = 0"
    using 0 eq by simp
  then have "data_len = 0"
    by (simp add: unat_eq_zero)
  ultimately show ?case
    using eq by (subst split_fragments_loop.simps) simp
next
  case (Suc n)
  let ?k = "unat i"
  let ?fd = "fragment_descriptor h t tid (unat F) (unat P) (unat N)"
  have k: "?k < unat N"
    using Suc.hyps(2) by simp
  then have lt: "i < N"
    by (simp add: word_less_nat_alt)
  have kF: "?k * unat F < unat P"
    using ceil_div_less [OF F] k N by simp
  have dp: "data_p = ?k * unat F"
    using Suc.prems(2) kF by simp
  have rem: "unat data_len = unat P - ?k * unat F"
    using Suc.prems(3) dp by simp
  define len where "len = (if data_len > F then F else data_len)"
  have unat_len: "unat len = min (unat F) (unat P - ?k * unat F)"
    using rem by (auto simp add: len_def word_less_nat_alt)
  have "len = of_nat (unat len)"
    by simp
  then have len: "len = of_nat (min (unat F) (unat P - ?k * unat F))"
    by (simp only: unat_len)
  have i1: "unat (i + 1) = Suc ?k"
    using lt by (rule unat_succ_less)
  have len_le: "len \<le> data_len"
    by (simp add: len_def word_le_nat_alt word_less_nat_alt)
  define info where "info = ?fd ?k"
  have IH: "split_fragments_loop h self 20 F N (i + 1) (data_p + unat len) (data_len - len)
              (array @ [info])
            = Some ((array @ [info]) @ map ?fd [unat (i + 1) ..< unat N], 0)"
  proof (rule Suc.hyps(1))
    show "n = unat N - unat (i + 1)"
      using Suc.hyps(2) i1 by simp
    show "unat (i + 1) \<le> unat N"
      using k i1 by simp
    show "data_p + unat len = min (unat (i + 1) * unat F) (unat P)"
      using kF by (simp add: dp unat_len i1 min_def) linarith
    show "unat (data_len - len) = unat P - (data_p + unat len)"
      using len_le by (simp add: unat_sub rem dp)
  qed
  have info_eq:
    "\<lparr>header = \<lparr>type_hdr = GUINT32_TO_LE h t,
                 length_hdr = GUINT32_TO_LE h (20 + len),
                 transaction_id_hdr = GUINT32_TO_LE h tid\<rparr>,
      fragment_header = \<lparr>total_fh = GUINT32_TO_LE h N, current_fh = GUINT32_TO_LE h i\<rparr>,
      data_length = len, data = data_p\<rparr> = info"
    by (simp add: info_def fragment_descriptor_def len dp)
  have "[?k ..< unat N] = ?k # [Suc ?k ..< unat N]"
    using k by (simp add: upt_conv_Cons)
  then show ?case
    using lt IH
    by (subst split_fragments_loop.simps)
       (simp add: header_fields t tid Let_def info_eq i1 flip: len_def info_def)
qed


lemma ceil_div_le: "0 < F \<Longrightarrow> ceil_div P F \<le> P"
proof (rule ccontr)
  assume F: "0 < F" and "\<not> ceil_div P F \<le> P"
  then have "P < ceil_div P F" by simp
  from ceil_div_less [OF F this] have "P * F < P" .
  then show False using F by simp
qed

lemma split_closed:
  assumes L: "field32 m 4 = Some L" and t: "field32 m 0 = Some t"
    and tid: "field32 m 8 = Some tid" and S: "20 < unat S"
  shows "mbim_message_split_fragments h m S =
     (if L \<le> S then Some None
      else Some (Some (map (fragment_descriptor h t tid (unat S - 20) (unat L - 20)
                             (ceil_div (unat L - 20) (unat S - 20)))
                         [0 ..< ceil_div (unat L - 20) (unat S - 20)],
                       of_nat (ceil_div (unat L - 20) (unat S - 20)))))"
proof (cases "L \<le> S")
  case True
  then show ?thesis
    using L by (simp add: mbim_message_split_fragments_def mbim_message_get_message_length_def
        header_fields)
next
  case False
  define P F where "P = L - 20" and "F = S - 20"
  have S20: "20 \<le> S"
    using S by (simp add: word_le_nat_alt)
  have L20: "20 \<le> L"
    using S False by (simp add: word_le_nat_alt)
  have uF: "unat F = unat S - 20" and uP: "unat P = unat L - 20"
    using S20 L20 by (simp_all add: F_def P_def unat_sub)
  have F0: "0 < unat F"
    using S uF by simp
  then have Fne: "F \<noteq> 0"
    by (simp add: unat_gt_0)
  define N where "N = (if P mod F \<noteq> 0 then P div F + 1 else P div F)"
  have cd: "ceil_div (unat P) (unat F) \<le> unat P"
    using F0 by (rule ceil_div_le)
  have uN: "unat N = ceil_div (unat P) (unat F)"
  proof (cases "P mod F = 0")
    case True
    then have "unat P mod unat F = 0"
      by (metis unat_mod unat_eq_zero)
    then show ?thesis
      using True F0 by (simp add: N_def ceil_div_code unat_div)
  next
    case nz: False
    then have m: "unat P mod unat F \<noteq> 0"
      by (metis unat_mod unat_eq_zero)
    then have c: "ceil_div (unat P) (unat F) = unat P div unat F + 1"
      using F0 by (simp add: ceil_div_code)
    have "unat P < 2 ^ 32"
      using unsigned_less [of P, where 'a = nat] by simp
    then have "unat (P div F) + unat (1 :: guint32) < 2 ^ LENGTH(32)"
      using cd c by (simp add: unat_div)
    then have "unat (P div F + 1) = unat (P div F) + unat (1 :: guint32)"
      by (simp only: unat_add_lem)
    then show ?thesis
      using nz c by (simp add: N_def unat_div)
  qed
  have loop: "split_fragments_loop h m 20 F N 0 0 P []
      = Some ([] @ map (fragment_descriptor h t tid (unat F) (unat P) (unat N))
                     [unat (0 :: guint32) ..< unat N], 0)"
    by (rule split_loop_closed [OF t tid F0 uN]) simp_all
  have "N = of_nat (unat N)"
    by simp
  then have N_of: "N = of_nat (ceil_div (unat L - 20) (unat S - 20))"
    by (simp only: uN uF uP)
  have Fne': "S - 20 \<noteq> 0"
    using Fne by (simp add: F_def)
  have "mbim_message_split_fragments h m S =
      split_fragments_loop h m 20 F N 0 0 P [] \<bind> (\<lambda>(array, data_len). Some (Some (array, N)))"
    using False L Fne'
    by (simp add: mbim_message_split_fragments_def mbim_message_get_message_length_def
        header_fields sizeof_header_def sizeof_fragment_header_def Let_def P_def F_def N_def)
  also have "\<dots> = Some (Some (map (fragment_descriptor h t tid (unat F) (unat P) (unat N))
                     [0 ..< unat N], N))"
    by (simp add: loop)
  also have "\<dots> = Some (Some (map (fragment_descriptor h t tid (unat S - 20) (unat L - 20)
                             (ceil_div (unat L - 20) (unat S - 20)))
                         [0 ..< ceil_div (unat L - 20) (unat S - 20)],
                       of_nat (ceil_div (unat L - 20) (unat S - 20))))"
    unfolding uN uF uP using N_of by (simp add: uN uF uP)
  finally show ?thesis
    using False by simp
qed


lemma sum_chunks:
  "sum_list (map (\<lambda>i. min F (P - i * F)) [0 ..< n]) = min (n * F) P"
  by (induction n) (auto simp add: min_def)

lemma descriptor_fields:
  assumes "F \<le> G_MAXUINT"
  shows "data (fragment_descriptor h t tid F P N i) = i * F"
    and "unat (data_length (fragment_descriptor h t tid F P N i)) = min F (P - i * F)"
    and "host_store h (length_hdr (header (fragment_descriptor h t tid F P N i)))
          = le_bytes (of_nat (20 + min F (P - i * F)))"
    and "host_store h (type_hdr (header (fragment_descriptor h t tid F P N i))) = le_bytes t"
    and "host_store h (transaction_id_hdr (header (fragment_descriptor h t tid F P N i)))
          = le_bytes tid"
    and "host_store h (total_fh (fragment_header (fragment_descriptor h t tid F P N i)))
          = le_bytes (of_nat N)"
    and "host_store h (current_fh (fragment_header (fragment_descriptor h t tid F P N i)))
          = le_bytes (of_nat i)"
  using assms
  by (simp_all add: fragment_descriptor_def host_store_TO_LE unat_of_nat32)

lemma split_fragments_shape_aux:
  assumes "mbim_message_get_message_length h m = Some L"
    and "MBIM_MESSAGE_GET_MESSAGE_TYPE h m = Some t"
    and "MBIM_MESSAGE_GET_TRANSACTION_ID h m = Some tid"
    and "20 < unat S"
    and "P = unat L - 20" and "F = unat S - 20" and "N = ceil_div P F"
  shows "(mbim_message_split_fragments h m S = Some None \<longleftrightarrow> L \<le> S)
    \<and> (S < L \<longrightarrow>
         (\<exists>ds n. mbim_message_split_fragments h m S = Some (Some (ds, n))
            \<and> unat n = N \<and> length ds = N
            \<and> (\<forall>i < N. data (ds ! i) = i * F
                  \<and> unat (data_length (ds ! i)) = min F (P - i * F)
                  \<and> host_store h (length_hdr (header (ds ! i)))
                      = le_bytes (of_nat (20 + min F (P - i * F)))
                  \<and> host_store h (type_hdr (header (ds ! i))) = le_bytes t
                  \<and> host_store h (transaction_id_hdr (header (ds ! i))) = le_bytes tid
                  \<and> host_store h (total_fh (fragment_header (ds ! i))) = le_bytes (of_nat N)
                  \<and> host_store h (current_fh (fragment_header (ds ! i))) = le_bytes (of_nat i))
            \<and> sum_list (map (\<lambda>d. unat (data_length d)) ds) = P))
    \<and> (unat L = 220 \<and> unat S = 64 \<longrightarrow>
         (\<exists>ds. mbim_message_split_fragments h m S = Some (Some (ds, 5))
            \<and> map (\<lambda>d. unat (data_length d)) ds = [44, 44, 44, 44, 24]
            \<and> host_store h (length_hdr (header (last ds))) = le_bytes 44))"
proof -
  have L: "field32 m 4 = Some L" and t: "field32 m 0 = Some t" and tid: "field32 m 8 = Some tid"
    using assms(1-3) by (simp_all add: mbim_message_get_message_length_def header_fields)
  let ?fd = "fragment_descriptor h t tid F P N"
  have split: "mbim_message_split_fragments h m S =
     (if L \<le> S then Some None else Some (Some (map ?fd [0 ..< N], of_nat N)))"
    using split_closed [OF L t tid assms(4), of h] by (simp add: assms(5-7))
  have F: "0 < F" "F \<le> G_MAXUINT"
    using assms(4,6) unat_le_G_MAXUINT [of S] by simp_all
  have NP: "N \<le> P"
    using F(1) by (simp add: assms(7) ceil_div_le)
  have "P \<le> G_MAXUINT"
    using unat_le_G_MAXUINT [of L] by (simp add: assms(5))
  then have uN: "unat (of_nat N :: guint32) = N"
    using NP by (simp add: unat_of_nat32)
  have first: "mbim_message_split_fragments h m S = Some None \<longleftrightarrow> L \<le> S"
    by (simp add: split)
  have sum: "sum_list (map (\<lambda>d. unat (data_length d)) (map ?fd [0 ..< N])) = P"
  proof -
    have "sum_list (map (\<lambda>d. unat (data_length d)) (map ?fd [0 ..< N]))
        = sum_list (map (\<lambda>i. min F (P - i * F)) [0 ..< N])"
      using F(2) by (simp add: descriptor_fields(2) comp_def)
    also have "\<dots> = min (N * F) P"
      by (rule sum_chunks)
    also have "\<dots> = P"
      using ceil_div_ge [OF F(1), of P] by (simp add: assms(7))
    finally show ?thesis .
  qed
  have second: "\<exists>ds n. mbim_message_split_fragments h m S = Some (Some (ds, n))
            \<and> unat n = N \<and> length ds = N
            \<and> (\<forall>i < N. data (ds ! i) = i * F
                  \<and> unat (data_length (ds ! i)) = min F (P - i * F)
                  \<and> host_store h (length_hdr (header (ds ! i)))
                      = le_bytes (of_nat (20 + min F (P - i * F)))
                  \<and> host_store h (type_hdr (header (ds ! i))) = le_bytes t
                  \<and> host_store h (transaction_id_hdr (header (ds ! i))) = le_bytes tid
                  \<and> host_store h (total_fh (fragment_header (ds ! i))) = le_bytes (of_nat N)
                  \<and> host_store h (current_fh (fragment_header (ds ! i))) = le_bytes (of_nat i))
            \<and> sum_list (map (\<lambda>d. unat (data_length d)) ds) = P"
    if "S < L"
  proof (intro exI conjI allI impI)
    show "mbim_message_split_fragments h m S = Some (Some (map ?fd [0 ..< N], of_nat N))"
      using that by (simp add: split)
    show "unat (of_nat N :: guint32) = N"
      by (fact uN)
    show "length (map ?fd [0 ..< N]) = N"
      by simp
    show "sum_list (map (\<lambda>d. unat (data_length d)) (map ?fd [0 ..< N])) = P"
      by (fact sum)
  qed (simp_all add: descriptor_fields [OF F(2)])
  have third: "\<exists>ds. mbim_message_split_fragments h m S = Some (Some (ds, 5))
            \<and> map (\<lambda>d. unat (data_length d)) ds = [44, 44, 44, 44, 24]
            \<and> host_store h (length_hdr (header (last ds))) = le_bytes 44"
    if "unat L = 220 \<and> unat S = 64"
  proof -
    have PF: "P = 200" "F = 44"
      using that by (simp_all add: assms(5,6))
    then have N5: "N = 5"
      by (simp add: assms(7) ceil_div_def)
    have upt5: "[0 ..< 5] = [0, 1, 2, 3, 4 :: nat]"
      by (simp add: upt_conv_Cons)
    have "\<not> L \<le> S"
      using that by (simp add: word_le_nat_alt)
    then have a: "mbim_message_split_fragments h m S = Some (Some (map ?fd [0 ..< N], 5))"
      by (simp add: split N5)
    have b: "map (\<lambda>d. unat (data_length d)) (map ?fd [0 ..< N]) = [44, 44, 44, 44, 24]"
      using F(2) unfolding N5 upt5 by (simp add: descriptor_fields(2)) (simp add: PF)
    have c: "host_store h (length_hdr (header (last (map ?fd [0 ..< N])))) = le_bytes 44"
      using F(2) unfolding N5 upt5 by (simp add: descriptor_fields(3)) (simp add: PF)
    show ?thesis
      by (intro exI conjI) (rule a, rule b, rule c)
  qed
  show ?thesis
    apply (rule conjI)
     apply (rule first)
    apply (rule conjI)
     apply (rule impI)
     apply (erule second)
    apply (rule impI)
    apply (erule third)
    done
qed


text \<open>
  C2. For a message whose header is in the array: \<open>_mbim_message_split_fragments\<close>
  returns NULL when the message length is at most the maximum fragment size, and, for a
  maximum fragment size above 20, only then. Otherwise, for such a maximum, with \<open>P\<close> the message length minus 20, \<open>F\<close>
  the maximum fragment size minus 20 and \<open>N\<close> the quotient of \<open>P\<close> by \<open>F\<close> rounded up,
  it returns \<open>N\<close> descriptors and stores \<open>N\<close> in \<open>n_fragments\<close>; descriptor \<open>i\<close> points
  \<open>i * F\<close> bytes into the payload region, has \<open>data_length = min F (P - i * F)\<close>, and its
  header fields are in memory the little-endian encodings of \<open>20 + data_length\<close>, the
  message's type and transaction id, \<open>N\<close> and \<open>i\<close>; the data lengths add up to \<open>P\<close>. For a
  message length of 220 and a maximum of 64 there are 5 descriptors with data lengths
  44, 44, 44, 44, 24, the last with header length 44.
\<close>

theorem split_fragments_shape:
  assumes "mbim_message_get_message_length h m = Some L"
    and "MBIM_MESSAGE_GET_MESSAGE_TYPE h m = Some t"
    and "MBIM_MESSAGE_GET_TRANSACTION_ID h m = Some tid"
    and "P = unat L - 20" and "F = unat S - 20" and "N = ceil_div P F"
  shows "(L \<le> S \<longrightarrow> mbim_message_split_fragments h m S = Some None)
    \<and> (20 < unat S \<longrightarrow>
         (mbim_message_split_fragments h m S = Some None \<longleftrightarrow> L \<le> S)
         \<and> (S < L \<longrightarrow>
              (\<exists>ds n. mbim_message_split_fragments h m S = Some (Some (ds, n))
                 \<and> unat n = N \<and> length ds = N
                 \<and> (\<forall>i < N. data (ds ! i) = i * F
                       \<and> unat (data_length (ds ! i)) = min F (P - i * F)
                       \<and> host_store h (length_hdr (header (ds ! i)))
                           = le_bytes (of_nat (20 + min F (P - i * F)))
                       \<and> host_store h (type_hdr (header (ds ! i))) = le_bytes t
                       \<and> host_store h (transaction_id_hdr (header (ds ! i))) = le_bytes tid
                       \<and> host_store h (total_fh (fragment_header (ds ! i)))
                           = le_bytes (of_nat N)
                       \<and> host_store h (current_fh (fragment_header (ds ! i)))
                           = le_bytes (of_nat i))
                 \<and> sum_list (map (\<lambda>d. unat (data_length d)) ds) = P)))
    \<and> (unat L = 220 \<and> unat S = 64 \<longrightarrow>
         (\<exists>ds. mbim_message_split_fragments h m S = Some (Some (ds, 5))
            \<and> map (\<lambda>d. unat (data_length d)) ds = [44, 44, 44, 44, 24]
            \<and> host_store h (length_hdr (header (last ds))) = le_bytes 44))"
proof (intro conjI impI)
  assume "L \<le> S"
  then show "mbim_message_split_fragments h m S = Some None"
    using assms(1) by (simp add: mbim_message_split_fragments_def)
next
  assume S: "20 < unat S"
  note aux = split_fragments_shape_aux [OF assms(1-3) S assms(4-6)]
  show "mbim_message_split_fragments h m S = Some None \<longleftrightarrow> L \<le> S"
    using aux by (rule conjunct1)
  assume SL: "S < L"
  show "\<exists>ds n. mbim_message_split_fragments h m S = Some (Some (ds, n))
                 \<and> unat n = N \<and> length ds = N
                 \<and> (\<forall>i < N. data (ds ! i) = i * F
                       \<and> unat (data_length (ds ! i)) = min F (P - i * F)
                       \<and> host_store h (length_hdr (header (ds ! i)))
                           = le_bytes (of_nat (20 + min F (P - i * F)))
                       \<and> host_store h (type_hdr (header (ds ! i))) = le_bytes t
                       \<and> host_store h (transaction_id_hdr (header (ds ! i))) = le_bytes tid
                       \<and> host_store h (total_fh (fragment_header (ds ! i)))
                           = le_bytes (of_nat N)
                       \<and> host_store h (current_fh (fragment_header (ds ! i)))
                           = le_bytes (of_nat i))
                 \<and> sum_list (map (\<lambda>d. unat (data_length d)) ds) = P"
    by (rule aux [THEN conjunct2, THEN conjunct1, THEN mp, OF SL])
next
  assume ex: "unat L = 220 \<and> unat S = 64"
  then have S: "20 < unat S"
    by simp
  note aux = split_fragments_shape_aux [OF assms(1-3) S assms(4-6)]
  show "\<exists>ds. mbim_message_split_fragments h m S = Some (Some (ds, 5))
            \<and> map (\<lambda>d. unat (data_length d)) ds = [44, 44, 44, 44, 24]
            \<and> host_store h (length_hdr (header (last ds))) = le_bytes 44"
    by (rule aux [THEN conjunct2, THEN conjunct2, THEN mp, OF ex])
qed

theorem split_fragments_shape_witness:
  "\<exists>ds. mbim_message_split_fragments G_BIG_ENDIAN
          ([3,0,0,0, 220,0,0,0, 1,0,0,0, 1,0,0,0, 0,0,0,0] @ replicate 200 0x5A) 64
        = Some (Some (ds, 5))
      \<and> map (\<lambda>d. unat (data_length d)) ds = [44, 44, 44, 44, 24]
      \<and> host_store G_BIG_ENDIAN (length_hdr (header (last ds))) = [44, 0, 0, 0]"
proof -
  define m :: MbimMessage
    where "m = [3,0,0,0, 220,0,0,0, 1,0,0,0, 1,0,0,0, 0,0,0,0] @ replicate 200 0x5A"
  have m: "mbim_message_get_message_length G_BIG_ENDIAN m = Some 220"
    "MBIM_MESSAGE_GET_MESSAGE_TYPE G_BIG_ENDIAN m = Some 3"
    "MBIM_MESSAGE_GET_TRANSACTION_ID G_BIG_ENDIAN m = Some 1"
    by (simp_all add: m_def mbim_message_get_message_length_def eval_fields)
  have "le_bytes 44 = [44, 0, 0, 0]"
    by (simp add: le_bytes_def)
  with split_fragments_shape [OF m, where S = 64 and P = 200 and F = 44 and N = 5] show ?thesis
    unfolding m_def by (simp add: ceil_div_def)
qed

section \<open>Copies and the length invariant\<close>

lemma field32_take:
  "off + 4 \<le> n \<Longrightarrow> n \<le> length m \<Longrightarrow> field32 (take n m) off = field32 m off"
  by (simp add: field32_def take_drop min_def)

lemma length_invariant_iff:
  "length_invariant h m \<longleftrightarrow>
     (\<exists>len. field32 m 4 = Some len \<and> unat len = length m)"
proof
  assume "length_invariant h m"
  then show "\<exists>len. field32 m 4 = Some len \<and> unat len = length m"
    by (auto simp add: length_invariant_def mbim_message_get_message_length_def header_fields
        unat_of_nat32)
next
  assume "\<exists>len. field32 m 4 = Some len \<and> unat len = length m"
  then obtain len where l: "field32 m 4 = Some len" "unat len = length m"
    by blast
  have "of_nat (unat len) = len"
    by simp
  then have "of_nat (length m) = len"
    by (simp only: l(2))
  moreover have "length m \<le> G_MAXUINT"
    using unat_le_G_MAXUINT [of len] l(2) by simp
  ultimately show "length_invariant h m"
    using l(1)
    by (simp add: length_invariant_def mbim_message_get_message_length_def header_fields)
qed

lemma dup_take:
  assumes "MBIM_MESSAGE_GET_MESSAGE_LENGTH h m = Some len" and "unat len \<le> length m"
  shows "mbim_message_dup h m = Some (take (unat len) m)"
  using assms by (simp add: dup_fields header_fields)

lemma dup_invariant:
  assumes "mbim_message_dup h m = Some d"
    and "MBIM_MESSAGE_GET_MESSAGE_LENGTH h m = Some len" and "8 \<le> unat len"
  shows "length_invariant h d"
proof -
  have d: "d = take (unat len) m" and le: "unat len \<le> length m"
    using assms(1,2) by (auto simp add: dup_fields header_fields split: if_split_asm)
  have "field32 d 4 = Some len"
    using assms(2,3) le by (simp add: d field32_take header_fields)
  moreover have "length d = unat len"
    using le by (simp add: d)
  ultimately show ?thesis
    by (simp add: length_invariant_iff)
qed

text \<open>
  C6 (as amended). \<open>mbim_message_dup\<close> copies the first \<open>length\<close> bytes of the array,
  \<open>length\<close> being the header's length field, when the array holds that many; copying the
  copy gives the copy again when the length field is at least 8; and for a message that
  satisfies the length invariant the raw data of the copy of the copy is the raw data of
  the message.
\<close>

theorem dup_dup_raw:
  "(MBIM_MESSAGE_GET_MESSAGE_LENGTH h m = Some len \<and> unat len \<le> length m \<longrightarrow>
      mbim_message_dup h m = Some (take (unat len) m)
      \<and> (8 \<le> unat len \<longrightarrow>
           mbim_message_dup h (take (unat len) m) = Some (take (unat len) m)))
   \<and> (length_invariant h m \<longrightarrow>
        (\<exists>d d'. mbim_message_dup h m = Some d \<and> mbim_message_dup h d = Some d'
           \<and> mbim_message_get_raw d' = mbim_message_get_raw m))"
proof (intro conjI impI)
  assume a: "MBIM_MESSAGE_GET_MESSAGE_LENGTH h m = Some len \<and> unat len \<le> length m"
  then show "mbim_message_dup h m = Some (take (unat len) m)"
    by (simp add: dup_take)
  assume b: "8 \<le> unat len"
  have "MBIM_MESSAGE_GET_MESSAGE_LENGTH h (take (unat len) m) = Some len"
    using a b by (simp add: header_fields field32_take)
  then show "mbim_message_dup h (take (unat len) m) = Some (take (unat len) m)"
    using a by (simp add: dup_take)
next
  assume "length_invariant h m"
  then obtain len where l: "field32 m 4 = Some len" "unat len = length m"
    by (auto simp add: length_invariant_iff)
  then have "mbim_message_dup h m = Some m"
    by (simp add: dup_take header_fields)
  then show "\<exists>d d'. mbim_message_dup h m = Some d \<and> mbim_message_dup h d = Some d'
           \<and> mbim_message_get_raw d' = mbim_message_get_raw m"
    by simp
qed

theorem dup_dup_raw_witness:
  "length_invariant G_BIG_ENDIAN [2,0,0,0, 12,0,0,0, 5,0,0,0]
   \<and> mbim_message_dup G_BIG_ENDIAN [2,0,0,0, 12,0,0,0, 5,0,0,0] = Some [2,0,0,0, 12,0,0,0, 5,0,0,0]
   \<and> mbim_message_dup G_BIG_ENDIAN [2,0,0,0, 12,0,0,0, 5,0,0,0, 1,2,3,4]
      = Some [2,0,0,0, 12,0,0,0, 5,0,0,0]"
proof -
  have a: "length_invariant G_BIG_ENDIAN [2,0,0,0, 12,0,0,0, 5,0,0,0]"
    by (simp add: length_invariant_iff field32_def le_word_def)
  have b: "MBIM_MESSAGE_GET_MESSAGE_LENGTH G_BIG_ENDIAN [2,0,0,0, 12,0,0,0, 5,0,0,0, 1,2,3,4]
      = Some 12"
    by (simp add: eval_fields)
  from dup_dup_raw [of G_BIG_ENDIAN "[2,0,0,0, 12,0,0,0, 5,0,0,0, 1,2,3,4]" 12] b
    dup_dup_raw [of G_BIG_ENDIAN "[2,0,0,0, 12,0,0,0, 5,0,0,0]" 12] a
  show ?thesis
    by simp
qed

text \<open>
  C6 as it is stated fails on a message whose array is longer than its length
  field says: the copy has 12 bytes, the message 16.
\<close>

theorem dup_dup_raw_counterexample:
  "mbim_message_dup G_LITTLE_ENDIAN [2,0,0,0, 12,0,0,0, 5,0,0,0, 1,2,3,4]
     = Some [2,0,0,0, 12,0,0,0, 5,0,0,0]
   \<and> mbim_message_dup G_LITTLE_ENDIAN [2,0,0,0, 12,0,0,0, 5,0,0,0]
     = Some [2,0,0,0, 12,0,0,0, 5,0,0,0]
   \<and> mbim_message_get_raw [2,0,0,0, 12,0,0,0, 5,0,0,0] = Inr ([2,0,0,0, 12,0,0,0, 5,0,0,0], 12)
   \<and> mbim_message_get_raw [2,0,0,0, 12,0,0,0, 5,0,0,0, 1,2,3,4]
     = Inr ([2,0,0,0, 12,0,0,0, 5,0,0,0, 1,2,3,4], 16)
   \<and> mbim_message_get_raw [2,0,0,0, 12,0,0,0, 5,0,0,0]
     \<noteq> mbim_message_get_raw [2,0,0,0, 12,0,0,0, 5,0,0,0, 1,2,3,4]"
  by (simp add: dup_fields field32_def le_word_def mbim_message_get_raw_def)

lemma add_accept_cases:
  assumes "mbim_message_fragment_collector_add h self fragment = Some (self', Inr ())"
  shows "\<exists>sl fl. field32 self 4 = Some sl \<and> field32 fragment 4 = Some fl
      \<and> 20 \<le> length self \<and> 20 \<le> length fragment
      \<and> 20 + unat (fl - 20) \<le> length fragment
      \<and> (fl - 20 \<noteq> 0 \<longrightarrow> length self + unat (fl - 20) \<le> G_MAXUINT)
      \<and> self' = set_bytes (set_bytes (self @ take (unat (fl - 20)) (drop 20 fragment)) 4
                   (le_bytes (sl + (fl - 20)))) 16 (take 4 (drop 16 fragment))"
proof -
  from assms obtain sc fc where
    fs: "MBIM_MESSAGE_IS_FRAGMENT h self = Some True"
    and ff: "MBIM_MESSAGE_IS_FRAGMENT h fragment = Some True"
    and sc: "field32 self 16 = Some sc" and fc: "field32 fragment 16 = Some fc"
    and eq: "sc = fc - 1"
    unfolding mbim_message_fragment_collector_add_def
    by (auto simp add: bind_eq_Some_conv header_fields split: if_split_asm)
  have ls: "20 \<le> length self" and lf: "20 \<le> length fragment"
    using sc fc by (auto dest: field32_Some_length)
  obtain sl fl where sl: "field32 self 4 = Some sl" and fl: "field32 fragment 4 = Some fl"
    using ls lf by (auto simp: field32_def)
  note acc = add_accept [OF fs ff sc fc eq sl fl]
  have bounds: "20 + unat (fl - 20) \<le> length fragment"
    using assms acc lf by (auto simp add: unat_eq_zero split: if_split_asm)
  have ovf: "fl - 20 \<noteq> 0 \<longrightarrow> length self + unat (fl - 20) \<le> G_MAXUINT"
    using assms acc by (auto split: if_split_asm)
  have "self' = set_bytes (set_bytes (self @ take (unat (fl - 20)) (drop 20 fragment)) 4
                   (le_bytes (sl + (fl - 20)))) 16 (take 4 (drop 16 fragment))"
  proof (cases "fl - 20 = 0")
    case True
    have "le_bytes sl = take 4 (drop 4 self)"
      using sl ls by (auto simp add: field32_def le_bytes_le_word)
    then have "set_bytes self 4 (le_bytes (sl + (fl - 20))) = self"
      using True ls take_take_drop [of 4 self 4] by (simp add: set_bytes_def)
    then show ?thesis
      using assms acc True by simp
  next
    case False
    then show ?thesis
      using assms acc by (auto split: if_split_asm)
  qed
  with sl fl ls lf bounds ovf show ?thesis
    by blast
qed

lemma add_invariant:
  assumes "length_invariant h self"
    and "mbim_message_fragment_collector_add h self fragment = Some (self', r)"
  shows "length_invariant h self'"
proof (cases r)
  case (Inl e)
  then show ?thesis
    using assms add_error_unchanged by blast
next
  case (Inr u)
  then have add: "mbim_message_fragment_collector_add h self fragment = Some (self', Inr ())"
    using assms(2) by simp
  from add_accept_cases [OF add] obtain sl fl where
    sl: "field32 self 4 = Some sl" and ls: "20 \<le> length self"
    and bounds: "20 + unat (fl - 20) \<le> length fragment"
    and ovf: "fl - 20 \<noteq> 0 \<longrightarrow> length self + unat (fl - 20) \<le> G_MAXUINT"
    and self': "self' = set_bytes (set_bytes (self @ take (unat (fl - 20)) (drop 20 fragment)) 4
                   (le_bytes (sl + (fl - 20)))) 16 (take 4 (drop 16 fragment))"
    by blast
  define n where "n = unat (fl - 20)"
  define app where "app = self @ take n (drop 20 fragment)"
  define mid where "mid = set_bytes app 4 (le_bytes (sl + (fl - 20)))"
  have usl: "unat sl = length self"
    using assms(1) sl by (simp add: length_invariant_iff)
  have la: "length app = length self + n"
    using bounds by (simp add: app_def n_def)
  have lmid: "length mid = length app"
    using la ls by (simp add: mid_def length_set_bytes)
  have l4: "length (take 4 (drop 16 fragment)) = 4"
    using bounds by simp
  have self'_mid: "self' = set_bytes mid 16 (take 4 (drop 16 fragment))"
    by (simp add: self' mid_def app_def n_def)
  have lself': "length self' = length self + n"
    using la lmid ls l4 by (simp add: self'_mid length_set_bytes)
  have "field32 self' 4 = field32 mid 4"
    unfolding self'_mid using la lmid ls l4 by (intro field32_set_bytes_other) auto
  also have "\<dots> = Some (sl + (fl - 20))"
    unfolding mid_def using la ls by (intro field32_set_bytes_same) auto
  finally have f4: "field32 self' 4 = Some (sl + (fl - 20))" .
  have "length self + n \<le> G_MAXUINT"
  proof (cases "fl - 20 = 0")
    case True
    then have "n = 0" by (simp add: n_def)
    then show ?thesis
      using unat_le_G_MAXUINT [of sl] usl by simp
  next
    case False
    then show ?thesis using ovf by (simp add: n_def)
  qed
  then have "unat sl + unat (fl - 20) < 2 ^ LENGTH(32)"
    by (simp add: usl n_def G_MAXUINT_def)
  then have "unat (sl + (fl - 20)) = unat sl + unat (fl - 20)"
    by (simp only: unat_add_lem)
  then have "unat (sl + (fl - 20)) = length self'"
    by (simp add: usl lself' n_def)
  with f4 show ?thesis
    by (auto simp add: length_invariant_iff)
qed

lemma complete_invariant:
  assumes "length_invariant h self"
    and "mbim_message_fragment_collector_complete h self = Some (self', done)"
  shows "length_invariant h self'"
proof (cases "self' = self")
  case True
  then show ?thesis using assms(1) by simp
next
  case False
  then have ls: "20 \<le> length self"
    and self': "self' = set_bytes (set_bytes self 16 (le_bytes 0)) 12 (le_bytes 1)"
    using assms(2)
    by (auto simp add: complete_fields split: option.splits bool.splits if_split_asm
        dest: field32_Some_length)
  define mid where "mid = set_bytes self 16 (le_bytes 0)"
  have lmid: "length mid = length self"
    using ls by (simp add: mid_def length_set_bytes)
  have "length self' = length self"
    using ls lmid by (simp add: self' length_set_bytes flip: mid_def)
  moreover have "field32 self' 4 = field32 mid 4"
    unfolding self' mid_def [symmetric] using lmid ls by (intro field32_set_bytes_other) auto
  moreover have "field32 mid 4 = field32 self 4"
    unfolding mid_def using ls by (intro field32_set_bytes_other) auto
  ultimately show ?thesis
    using assms(1) by (simp add: length_invariant_iff)
qed

lemma add_all_invariant:
  "length_invariant h self \<Longrightarrow> collector_add_all h self fragments = Some (self', r)
    \<Longrightarrow> length_invariant h self'"
proof (induction fragments arbitrary: self)
  case Nil
  then show ?case by simp
next
  case (Cons f fs)
  from Cons.prems(2) obtain s1 r1 where
    a: "mbim_message_fragment_collector_add h self f = Some (s1, r1)"
    and rest: "(case r1 of Inl e \<Rightarrow> Some (s1, Inl e) | Inr _ \<Rightarrow> collector_add_all h s1 fs)
                = Some (self', r)"
    by (auto simp add: bind_eq_Some_conv)
  have inv1: "length_invariant h s1"
    using add_invariant [OF Cons.prems(1) a] .
  show ?case
  proof (cases r1)
    case (Inl e)
    then show ?thesis using rest inv1 by simp
  next
    case (Inr u)
    then show ?thesis using rest inv1 Cons.IH by simp
  qed
qed

lemma close_new_bytes:
  "mbim_message_close_new h heap tid = Some (le_bytes 2 @ le_bytes 12 @ le_bytes tid)"
  by (simp add: mbim_message_close_new_def mbim_message_allocate_def poke_le32 set_bytes_def
      g_byte_array_sized_new_def g_byte_array_set_size_def sizeof_header_def
      MBIM_MESSAGE_TYPE_CLOSE_def)

lemma error_new_bytes:
  "mbim_message_error_new h heap tid err
     = Some (le_bytes 4 @ le_bytes 16 @ le_bytes tid @ le_bytes err)"
  by (simp add: mbim_message_error_new_def mbim_message_allocate_def poke_le32 set_bytes_def
      g_byte_array_sized_new_def g_byte_array_set_size_def sizeof_header_def
      sizeof_open_message_def MBIM_MESSAGE_TYPE_HOST_ERROR_def)

lemma constructed_invariant:
  "length_invariant h (le_bytes a @ le_bytes 12 @ le_bytes c)"
  "length_invariant h (le_bytes a @ le_bytes 16 @ le_bytes c @ le_bytes d)"
  by (simp_all add: length_invariant_iff field32_le4)

lemma init_invariant:
  assumes "mbim_message_fragment_collector_init h f = Some (Inr c)"
    and "MBIM_MESSAGE_GET_MESSAGE_LENGTH h f = Some len" and "8 \<le> unat len"
  shows "length_invariant h c"
proof -
  have "mbim_message_dup h f = Some c"
    using assms(1) unfolding mbim_message_fragment_collector_init_def
    by (auto simp add: bind_eq_Some_conv split: if_split_asm)
  then show ?thesis
    using assms(2,3) by (rule dup_invariant)
qed

lemma run_invariant:
  assumes "collector_run h (f # fs) = Some (Inr (c, done))"
    and "MBIM_MESSAGE_GET_MESSAGE_LENGTH h f = Some len" and "8 \<le> unat len"
  shows "length_invariant h c"
proof -
  from assms(1) obtain r0 where i0: "mbim_message_fragment_collector_init h f = Some r0"
    and rest0: "(case r0 of Inl e \<Rightarrow> Some (Inl e)
       | Inr self \<Rightarrow> collector_add_all h self fs \<bind>
           (\<lambda>(self, r). case r of Inl e \<Rightarrow> Some (Inl e)
              | Inr _ \<Rightarrow> mbim_message_fragment_collector_complete h self \<bind>
                  (\<lambda>(self, done). Some (Inr (self, done)))))
       = Some (Inr (c, done))"
    by (auto simp add: bind_eq_Some_conv)
  from rest0 obtain c0 where r0: "r0 = Inr c0"
    by (cases r0) simp_all
  from rest0 r0 obtain c1 r1 where a1: "collector_add_all h c0 fs = Some (c1, r1)"
    and rest1: "(case r1 of Inl e \<Rightarrow> Some (Inl e)
        | Inr _ \<Rightarrow> mbim_message_fragment_collector_complete h c1 \<bind>
            (\<lambda>(self, done). Some (Inr (self, done))))
       = Some (Inr (c, done))"
    by (auto simp add: bind_eq_Some_conv)
  from rest1 obtain u where r1: "r1 = Inr u"
    by (cases r1) simp_all
  have i: "mbim_message_fragment_collector_init h f = Some (Inr c0)"
    using i0 r0 by simp
  have a: "collector_add_all h c0 fs = Some (c1, Inr ())"
    using a1 r1 by simp
  have cmp: "mbim_message_fragment_collector_complete h c1 = Some (c, done)"
    using rest1 r1 by (auto simp add: bind_eq_Some_conv)
  have "length_invariant h c0"
    using i assms(2,3) by (rule init_invariant)
  then have "length_invariant h c1"
    using a by (rule add_all_invariant)
  then show ?thesis
    using cmp by (rule complete_invariant)
qed

text \<open>
  C5 (as amended). The header's length field, as \<open>mbim_message_get_message_length\<close> reads
  it, is the number of bytes of the array: in the result of each typed constructor; in the
  result of a successful \<open>init\<close> on a fragment whose length field is at least 8; after
  \<open>add\<close> and after \<open>complete\<close> on a message for which it held before; hence in the
  result of every run of the collector that starts from such a fragment.
\<close>

theorem length_invariant_kept:
  "(\<exists>m. mbim_message_open_new h heap tid mct = Some m \<and> length_invariant h m)
   \<and> (\<exists>m. mbim_message_close_new h heap tid = Some m \<and> length_invariant h m)
   \<and> (\<exists>m. mbim_message_error_new h heap tid err = Some m \<and> length_invariant h m)
   \<and> (mbim_message_fragment_collector_init h f = Some (Inr c)
        \<and> MBIM_MESSAGE_GET_MESSAGE_LENGTH h f = Some len \<and> 8 \<le> unat len
        \<longrightarrow> length_invariant h c)
   \<and> (length_invariant h self
        \<and> mbim_message_fragment_collector_add h self fragment = Some (self', r)
        \<longrightarrow> length_invariant h self')
   \<and> (length_invariant h self
        \<and> mbim_message_fragment_collector_complete h self = Some (self'', done)
        \<longrightarrow> length_invariant h self'')
   \<and> (collector_run h (f # fs) = Some (Inr (c', done'))
        \<and> MBIM_MESSAGE_GET_MESSAGE_LENGTH h f = Some len \<and> 8 \<le> unat len
        \<longrightarrow> length_invariant h c')"
  using init_invariant [of h f c len] add_invariant [of h self fragment self' r]
    complete_invariant [of h self self'' "done"] run_invariant [of h f fs c' done' len]
  by (simp add: open_new_bytes close_new_bytes error_new_bytes constructed_invariant)

theorem length_invariant_kept_witness:
  "collector_run G_BIG_ENDIAN
     [ [3,0,0,0, 24,0,0,0, 9,0,0,0, 2,0,0,0, 0,0,0,0, 0xAA,0xBB,0xCC,0xDD],
      [3,0,0,0, 22,0,0,0, 9,0,0,0, 2,0,0,0, 1,0,0,0, 0xEE,0xFF]]
     = Some (Inr ([3,0,0,0, 26,0,0,0, 9,0,0,0, 1,0,0,0, 0,0,0,0, 0xAA,0xBB,0xCC,0xDD, 0xEE,0xFF],
                  True))
   \<and> length_invariant G_BIG_ENDIAN
       [3,0,0,0, 26,0,0,0, 9,0,0,0, 1,0,0,0, 0,0,0,0, 0xAA,0xBB,0xCC,0xDD, 0xEE,0xFF]"
proof -
  define f0 :: MbimMessage
    where "f0 = [3,0,0,0, 24,0,0,0, 9,0,0,0, 2,0,0,0, 0,0,0,0, 0xAA,0xBB,0xCC,0xDD]"
  define f1 :: MbimMessage
    where "f1 = [3,0,0,0, 22,0,0,0, 9,0,0,0, 2,0,0,0, 1,0,0,0, 0xEE,0xFF]"
  define c1 :: MbimMessage
    where "c1 = [3,0,0,0, 26,0,0,0, 9,0,0,0, 2,0,0,0, 1,0,0,0, 0xAA,0xBB,0xCC,0xDD, 0xEE,0xFF]"
  define c :: MbimMessage
    where "c = [3,0,0,0, 26,0,0,0, 9,0,0,0, 1,0,0,0, 0,0,0,0, 0xAA,0xBB,0xCC,0xDD, 0xEE,0xFF]"
  have f0: "MBIM_MESSAGE_IS_FRAGMENT G_BIG_ENDIAN f0 = Some True"
    "MBIM_MESSAGE_FRAGMENT_GET_CURRENT G_BIG_ENDIAN f0 = Some 0"
    "MBIM_MESSAGE_FRAGMENT_GET_TOTAL G_BIG_ENDIAN f0 = Some 2"
    "MBIM_MESSAGE_GET_MESSAGE_LENGTH G_BIG_ENDIAN f0 = Some 24"
    by (simp_all add: f0_def eval_fields)
  have f1: "MBIM_MESSAGE_IS_FRAGMENT G_BIG_ENDIAN f1 = Some True"
    "field32 f1 16 = Some 1" "field32 f1 4 = Some 22"
    by (simp_all add: f1_def eval_fields)
  have i: "mbim_message_fragment_collector_init G_BIG_ENDIAN f0 = Some (Inr f0)"
    using init_sequencing(2) [OF f0(1-3) _ f0(4)] by (simp add: f0_def)
  have a: "mbim_message_fragment_collector_add G_BIG_ENDIAN f0 f1 = Some (c1, Inr ())"
    using add_accept [OF f0(1) f1(1) _ f1(2) _ _ f1(3), of 0 24] f0
    by (simp add: header_fields)
       (simp add: f0_def f1_def c1_def set_bytes_def le_bytes_def G_MAXUINT_def)
  have cmp: "mbim_message_fragment_collector_complete G_BIG_ENDIAN c1 = Some (c, True)"
    by (simp add: complete_fields is_fragment_field)
       (simp add: c1_def c_def field32_def le_word_def set_bytes_def le_bytes_def
          MBIM_MESSAGE_TYPE_COMMAND_def)
  have run: "collector_run G_BIG_ENDIAN [f0, f1] = Some (Inr (c, True))"
    by (simp add: i a cmp)
  from length_invariant_kept [of G_BIG_ENDIAN _ _ _ _ f0 _ 24 _ _ _ _ _ _ "[f1]" c True] run f0(4)
  have "length_invariant G_BIG_ENDIAN c"
    by simp
  with run show ?thesis
    unfolding f0_def f1_def c_def by simp
qed

text \<open>
  C5 as it is stated fails for \<open>init\<close> on a first fragment whose length field is
  below 8: the copy made by \<open>mbim_message_dup\<close> has that many bytes and no length field.
\<close>

theorem length_invariant_counterexample:
  "mbim_message_fragment_collector_init G_LITTLE_ENDIAN
     [3,0,0,0, 4,0,0,0, 9,0,0,0, 1,0,0,0, 0,0,0,0] = Some (Inr [3,0,0,0])
   \<and> mbim_message_get_message_length G_LITTLE_ENDIAN [3,0,0,0] = None
   \<and> \<not> length_invariant G_LITTLE_ENDIAN [3,0,0,0]"
proof -
  define f :: MbimMessage where "f = [3,0,0,0, 4,0,0,0, 9,0,0,0, 1,0,0,0, 0,0,0,0]"
  have f: "MBIM_MESSAGE_IS_FRAGMENT G_LITTLE_ENDIAN f = Some True"
    "MBIM_MESSAGE_FRAGMENT_GET_CURRENT G_LITTLE_ENDIAN f = Some 0"
    "MBIM_MESSAGE_FRAGMENT_GET_TOTAL G_LITTLE_ENDIAN f = Some 1"
    "MBIM_MESSAGE_GET_MESSAGE_LENGTH G_LITTLE_ENDIAN f = Some 4"
    by (simp_all add: f_def eval_fields)
  have "mbim_message_fragment_collector_init G_LITTLE_ENDIAN f = Some (Inr [3,0,0,0])"
    using init_sequencing(2) [OF f(1-3) _ f(4)] by (simp add: f_def)
  moreover have "mbim_message_get_message_length G_LITTLE_ENDIAN [3,0,0,0] = None"
    by (simp add: mbim_message_get_message_length_def header_fields field32_def)
  ultimately show ?thesis
    unfolding f_def by (simp add: length_invariant_def)
qed

section \<open>Splitting and joining\<close>

lemma fb_fields:
  "field32 (fragment_bytes t len tid tot cur p) 0 = Some t"
  "field32 (fragment_bytes t len tid tot cur p) 4 = Some len"
  "field32 (fragment_bytes t len tid tot cur p) 8 = Some tid"
  "field32 (fragment_bytes t len tid tot cur p) 12 = Some tot"
  "field32 (fragment_bytes t len tid tot cur p) 16 = Some cur"
  by (simp_all add: fragment_bytes_def field32_le4)

lemma fb_length [simp]: "length (fragment_bytes t len tid tot cur p) = 20 + length p"
  by (simp add: fragment_bytes_def)

lemma fb_drop20: "drop 20 (fragment_bytes t len tid tot cur p) = p"
  by (simp add: fragment_bytes_def)

lemma fb_current_bytes: "take 4 (drop 16 (fragment_bytes t len tid tot cur p)) = le_bytes cur"
  by (simp add: fragment_bytes_def)

lemma fb_append:
  "fragment_bytes t len tid tot cur p @ q = fragment_bytes t len tid tot cur (p @ q)"
  by (simp add: fragment_bytes_def)

lemma fb_set4:
  "set_bytes (fragment_bytes t len tid tot cur p) 4 (le_bytes len')
     = fragment_bytes t len' tid tot cur p"
  by (simp add: fragment_bytes_def set_bytes_def)

lemma fb_set12:
  "set_bytes (fragment_bytes t len tid tot cur p) 12 (le_bytes tot')
     = fragment_bytes t len tid tot' cur p"
  by (simp add: fragment_bytes_def set_bytes_def)

lemma fb_set16:
  "set_bytes (fragment_bytes t len tid tot cur p) 16 (le_bytes cur')
     = fragment_bytes t len tid tot cur' p"
  by (simp add: fragment_bytes_def set_bytes_def)

lemma fb_take12:
  "take 12 (fragment_bytes t len tid tot cur p) @ le_bytes tot' @ le_bytes cur' @ q
     = fragment_bytes t len tid tot' cur' q"
  by (simp add: fragment_bytes_def)

lemma message_as_fb:
  assumes "field32 m 0 = Some t" and "field32 m 4 = Some len" and "field32 m 8 = Some tid"
    and "field32 m 12 = Some tot" and "field32 m 16 = Some cur"
  shows "m = fragment_bytes t len tid tot cur (drop 20 m)"
proof -
  have l: "20 \<le> length m"
    using assms(5) by (auto dest: field32_Some_length)
  have b: "le_bytes t = take 4 (drop 0 m)" "le_bytes len = take 4 (drop 4 m)"
    "le_bytes tid = take 4 (drop 8 m)" "le_bytes tot = take 4 (drop 12 m)"
    "le_bytes cur = take 4 (drop 16 m)"
    using assms l by (auto simp add: field32_def le_bytes_le_word)
  have "take 4 (drop 16 m) @ drop 20 m = drop 16 m"
    using append_take_drop_id [of 4 "drop 16 m"] by simp
  moreover have "take 4 (drop 12 m) @ drop 16 m = drop 12 m"
    using append_take_drop_id [of 4 "drop 12 m"] by simp
  moreover have "take 4 (drop 8 m) @ drop 12 m = drop 8 m"
    using append_take_drop_id [of 4 "drop 8 m"] by simp
  moreover have "take 4 (drop 4 m) @ drop 8 m = drop 4 m"
    using append_take_drop_id [of 4 "drop 4 m"] by simp
  moreover have "take 4 m @ drop 4 m = m"
    by simp
  ultimately show ?thesis
    unfolding fragment_bytes_def b by simp
qed

lemma fb_is_fragment:
  assumes "MBIM_MESSAGE_IS_FRAGMENT h m = Some True" and "field32 m 0 = Some t"
  shows "MBIM_MESSAGE_IS_FRAGMENT h (fragment_bytes t len tid tot cur p) = Some True"
  using assms by (simp add: is_fragment_field fb_fields)

lemma init_fb:
  assumes "MBIM_MESSAGE_IS_FRAGMENT h (fragment_bytes t len tid tot 0 p) = Some True"
    and "unat len = 20 + length p"
  shows "mbim_message_fragment_collector_init h (fragment_bytes t len tid tot 0 p)
          = Some (Inr (fragment_bytes t len tid tot 0 p))"
  using init_sequencing(2) [OF assms(1), of 0 tot len] assms(2)
  by (simp add: header_fields fb_fields)

lemma add_fb:
  assumes "MBIM_MESSAGE_IS_FRAGMENT h (fragment_bytes t len tid tot cur p) = Some True"
    and "MBIM_MESSAGE_IS_FRAGMENT h (fragment_bytes t' len' tid' tot' (cur + 1) q) = Some True"
    and "unat len' = 20 + length q" and "q \<noteq> []"
    and "20 + length p + length q \<le> G_MAXUINT"
  shows "mbim_message_fragment_collector_add h (fragment_bytes t len tid tot cur p)
           (fragment_bytes t' len' tid' tot' (cur + 1) q)
          = Some (fragment_bytes t (len + (len' - 20)) tid tot (cur + 1) (p @ q), Inr ())"
proof -
  have "20 \<le> len'"
    using assms(3) by (simp add: word_le_nat_alt)
  then have n: "unat (len' - 20) = length q"
    using assms(3) by (simp add: unat_sub)
  then have nz: "len' - 20 \<noteq> 0"
    using assms(4) by (auto simp add: unat_eq_zero [symmetric] simp del: unat_eq_zero)
  show ?thesis
    using add_accept [OF assms(1,2) fb_fields(5) fb_fields(5) _ fb_fields(2) fb_fields(2)]
      assms(5) nz
    by (simp add: n fb_drop20 fb_current_bytes fb_append fb_set4 fb_set16)
qed

lemma complete_fb:
  assumes "MBIM_MESSAGE_IS_FRAGMENT h (fragment_bytes t len tid tot cur p) = Some True"
    and "cur + 1 = tot"
  shows "mbim_message_fragment_collector_complete h (fragment_bytes t len tid tot cur p)
          = Some (fragment_bytes t len tid 1 0 p, True)"
proof -
  have "cur = tot - 1"
    using assms(2) by auto
  then show ?thesis
    using assms(1) by (simp add: complete_fields fb_fields fb_set16 fb_set12)
qed

lemma concat_chunks:
  "concat (map (\<lambda>j. take (min F (P - j * F)) (drop (j * F) xs)) [0 ..< n])
     = take (min (n * F) P) xs"
proof (induction n)
  case 0
  then show ?case by simp
next
  case (Suc n)
  show ?case
  proof (cases "n * F < P")
    case True
    then have a: "min (n * F) P = n * F"
      by simp
    have b: "min (Suc n * F) P = n * F + min F (P - n * F)"
      using True by (simp add: min_def) linarith
    show ?thesis
      using Suc.IH unfolding b by (simp add: a take_add)
  next
    case False
    then have "min (n * F) P = P" "P - n * F = 0" "min (Suc n * F) P = P"
      by (simp_all add: min_def)
    then show ?thesis
      using Suc.IH by simp
  qed
qed

lemma add_all_indexed:
  fixes q :: "nat \<Rightarrow> guint8 list"
  assumes isf: "\<And>len tot cur p. MBIM_MESSAGE_IS_FRAGMENT h (fragment_bytes t len tid tot cur p) = Some True"
    and ne: "\<And>j. j < N \<Longrightarrow> q j \<noteq> []"
  shows "1 \<le> k \<Longrightarrow> k \<le> N
    \<Longrightarrow> 20 + length p + length (concat (map q [k ..< N])) \<le> G_MAXUINT
    \<Longrightarrow> collector_add_all h
          (fragment_bytes t (of_nat (20 + length p)) tid tot (of_nat (k - 1)) p)
          (map (\<lambda>j. fragment_bytes t (of_nat (20 + length (q j))) tid tot' (of_nat j) (q j))
             [k ..< N])
        = Some (fragment_bytes t (of_nat (20 + length p + length (concat (map q [k ..< N]))))
                  tid tot (of_nat (N - 1)) (p @ concat (map q [k ..< N])), Inr ())"
proof (induction "N - k" arbitrary: k p)
  case 0
  then have "k = N" by simp
  then show ?case by simp
next
  case (Suc d)
  then have kN: "k < N" by simp
  then have upt: "[k ..< N] = k # [Suc k ..< N]"
    by (simp add: upt_conv_Cons)
  have bound: "20 + length p + length (q k) + length (concat (map q [Suc k ..< N])) \<le> G_MAXUINT"
    using Suc.prems(3) by (simp add: upt)
  define c0 :: guint32 where "c0 = of_nat (k - 1)"
  define L0 :: guint32 where "L0 = of_nat (20 + length p)"
  define Lk :: guint32 where "Lk = of_nat (20 + length (q k))"
  have cur: "(of_nat k :: guint32) = c0 + 1"
  proof -
    from Suc.prems(1) obtain k' where "k = Suc k'"
      by (cases k) auto
    then show ?thesis
      by (simp add: c0_def)
  qed
  have u: "unat Lk = 20 + length (q k)"
    unfolding Lk_def using bound by (intro unat_of_nat32) simp
  have bound': "20 + length p + length (q k) \<le> G_MAXUINT"
    using bound by simp
  have step0: "mbim_message_fragment_collector_add h
      (fragment_bytes t L0 tid tot c0 p) (fragment_bytes t Lk tid tot' (c0 + 1) (q k))
     = Some (fragment_bytes t (L0 + (Lk - 20)) tid tot (c0 + 1) (p @ q k), Inr ())"
    by (rule add_fb [OF isf isf u ne [OF kN] bound'])
  have L1: "L0 + (Lk - 20) = of_nat (20 + length (p @ q k))"
    by (simp add: L0_def Lk_def)
  have k1: "Suc k - 1 = k"
    by simp
  have step: "mbim_message_fragment_collector_add h
      (fragment_bytes t (of_nat (20 + length p)) tid tot (of_nat (k - 1)) p)
      (fragment_bytes t (of_nat (20 + length (q k))) tid tot' (of_nat k) (q k))
     = Some (fragment_bytes t (of_nat (20 + length (p @ q k))) tid tot (of_nat (Suc k - 1))
               (p @ q k), Inr ())"
    using step0 unfolding L1 k1 cur unfolding c0_def L0_def Lk_def .
  have IH: "collector_add_all h
          (fragment_bytes t (of_nat (20 + length (p @ q k))) tid tot (of_nat (Suc k - 1)) (p @ q k))
          (map (\<lambda>j. fragment_bytes t (of_nat (20 + length (q j))) tid tot' (of_nat j) (q j))
             [Suc k ..< N])
        = Some (fragment_bytes t
                  (of_nat (20 + length (p @ q k) + length (concat (map q [Suc k ..< N]))))
                  tid tot (of_nat (N - 1)) ((p @ q k) @ concat (map q [Suc k ..< N])), Inr ())"
    using Suc.hyps(2) kN bound by (intro Suc.hyps(1)) simp_all
  show ?case
    unfolding upt using step IH by (simp add: add.assoc)
qed

lemma split_join_general:
  assumes frag: "MBIM_MESSAGE_IS_FRAGMENT h m = Some True"
    and L: "mbim_message_get_message_length h m = Some L"
    and S: "20 < unat S" and SL: "S < L" and inb: "unat L \<le> length m"
  shows "\<exists>ds n slices frags.
      mbim_message_split_fragments h m S = Some (Some (ds, n))
    \<and> map (fragment_payload_slice m) ds = map Some slices
    \<and> concat slices = take (unat L - 20) (drop 20 m)
    \<and> map (fragment_on_wire h m) ds = map Some frags
    \<and> collector_run h frags
        = Some (Inr (take 12 m @ le_bytes 1 @ le_bytes 0 @ take (unat L - 20) (drop 20 m), True))"
proof -
  define P F where "P = unat L - 20" and "F = unat S - 20"
  define N where "N = ceil_div P F"
  define pay where "pay = drop 20 m"
  have uSL: "unat S < unat L"
    using SL by (simp add: word_less_nat_alt)
  have lm: "20 < length m"
    using uSL S inb by simp
  have F: "0 < F" "F \<le> G_MAXUINT"
    using S unat_le_G_MAXUINT [of S] by (simp_all add: F_def)
  have FP: "F < P"
    using uSL S by (simp add: F_def P_def)
  have P20: "20 + P = unat L"
    using uSL S by (simp add: P_def)
  have PG: "20 + P \<le> G_MAXUINT"
    using unat_le_G_MAXUINT [of L] P20 by simp
  have lpay: "P \<le> length pay"
    using inb P20 by (simp add: pay_def)
  have N1: "1 \<le> N"
  proof (rule ccontr)
    assume "\<not> 1 \<le> N"
    then have "N = 0" by simp
    then show False
      using ceil_div_ge [OF F(1), of P] FP by (simp add: N_def)
  qed
  have Lf: "field32 m 4 = Some L"
    using L by (simp add: mbim_message_get_message_length_def header_fields)
  obtain t tid tot0 cur0 where t: "field32 m 0 = Some t" and tid: "field32 m 8 = Some tid"
    and tot0: "field32 m 12 = Some tot0" and cur0: "field32 m 16 = Some cur0"
    using lm by (auto simp add: field32_def)
  have isf: "MBIM_MESSAGE_IS_FRAGMENT h (fragment_bytes t len tid' tot cur p) = Some True"
    for len tid' tot cur p
    using frag t by (rule fb_is_fragment)
  let ?fd = "fragment_descriptor h t tid F P N"
  define q where "q j = take (min F (P - j * F)) (drop (j * F) pay)" for j
  define wire where
    "wire j = fragment_bytes t (of_nat (20 + length (q j))) tid (of_nat N) (of_nat j) (q j)" for j
  have split: "mbim_message_split_fragments h m S = Some (Some (map ?fd [0 ..< N], of_nat N))"
    using split_closed [OF Lf t tid S, of h] SL by (simp add: P_def F_def N_def)
  have jF: "j * F < P" if "j < N" for j
    using that ceil_div_less [OF F(1)] by (simp add: N_def)
  have lq: "length (q j) = min F (P - j * F)" if "j < N" for j
    using jF [OF that] lpay by (simp add: q_def)
  have qne: "q j \<noteq> []" if "j < N" for j
    using lq [OF that] jF [OF that] F(1) by (auto simp add: min_def split: if_split_asm)
  have slice: "fragment_payload_slice m (?fd j) = Some (q j)" if "j < N" for j
  proof -
    have "20 + j * F + min F (P - j * F) \<le> length m"
      using jF [OF that] inb P20 by (simp add: min_def) linarith
    then show ?thesis
      using F(2)
      by (simp add: fragment_payload_slice_def descriptor_fields q_def pay_def add.commute)
  qed
  have on_wire: "fragment_on_wire h m (?fd j) = Some (wire j)" if "j < N" for j
    using F(2) lq [OF that]
    by (simp add: fragment_on_wire_def slice [OF that] descriptor_fields wire_def
        fragment_bytes_def)
  have slices: "map (fragment_payload_slice m) (map ?fd [0 ..< N]) = map Some (map q [0 ..< N])"
    using slice by simp
  have wires: "map (fragment_on_wire h m) (map ?fd [0 ..< N]) = map Some (map wire [0 ..< N])"
    using on_wire by simp
  have all: "concat (map q [0 ..< N]) = take P pay"
  proof -
    have "concat (map q [0 ..< N]) = take (min (N * F) P) pay"
      unfolding q_def by (rule concat_chunks)
    then show ?thesis
      using ceil_div_ge [OF F(1), of P] by (simp add: N_def)
  qed
  have upt: "[0 ..< N] = 0 # [1 ..< N]"
    using N1 by (simp add: upt_conv_Cons)
  have all': "q 0 @ concat (map q [1 ..< N]) = take P pay"
    using all unfolding upt by simp
  then have len_all: "length (q 0) + length (concat (map q [1 ..< N])) = P"
    using lpay by (metis length_append length_take min.absorb2)
  have u0: "unat (of_nat (20 + length (q 0)) :: guint32) = 20 + length (q 0)"
    using len_all PG by (intro unat_of_nat32) simp
  have init: "mbim_message_fragment_collector_init h (wire 0) = Some (Inr (wire 0))"
    using init_fb [OF isf u0, of tid "of_nat N"] by (simp add: wire_def)
  have adds: "collector_add_all h (wire 0) (map wire [1 ..< N])
      = Some (fragment_bytes t (of_nat (20 + P)) tid (of_nat N) (of_nat (N - 1)) (take P pay),
              Inr ())"
  proof -
    have A: "collector_add_all h
          (fragment_bytes t (of_nat (20 + length (q 0))) tid (of_nat N) (of_nat (1 - 1)) (q 0))
          (map (\<lambda>j. fragment_bytes t (of_nat (20 + length (q j))) tid (of_nat N) (of_nat j) (q j))
             [1 ..< N])
        = Some (fragment_bytes t
                  (of_nat (20 + length (q 0) + length (concat (map q [1 ..< N]))))
                  tid (of_nat N) (of_nat (N - 1)) (q 0 @ concat (map q [1 ..< N])), Inr ())"
      using N1 len_all PG by (intro add_all_indexed isf qne) simp_all
    have e1: "20 + length (q 0) + length (concat (map q [1 ..< N])) = 20 + P"
      using len_all by simp
    have z: "(of_nat (1 - 1) :: guint32) = of_nat 0"
      by simp
    have wire_eq:
      "(\<lambda>j. fragment_bytes t (of_nat (20 + length (q j))) tid (of_nat N) (of_nat j) (q j)) = wire"
      by (rule ext) (simp add: wire_def)
    have w0: "fragment_bytes t (of_nat (20 + length (q 0))) tid (of_nat N) (of_nat 0) (q 0)
        = wire 0"
      by (simp add: wire_def)
    from A show ?thesis
      unfolding e1 all' z wire_eq w0 .
  qed
  have "(of_nat (N - 1) :: guint32) + 1 = of_nat N"
  proof -
    from N1 obtain n' where "N = Suc n'" by (cases N) auto
    then show ?thesis by simp
  qed
  then have comp: "mbim_message_fragment_collector_complete h
       (fragment_bytes t (of_nat (20 + P)) tid (of_nat N) (of_nat (N - 1)) (take P pay))
      = Some (fragment_bytes t (of_nat (20 + P)) tid 1 0 (take P pay), True)"
    using isf by (rule complete_fb [rotated])
  have "of_nat (unat L) = L"
    by simp
  then have LP: "of_nat (20 + P) = L"
    by (simp only: P20)
  have m_fb: "m = fragment_bytes t L tid tot0 cur0 pay"
    unfolding pay_def using t Lf tid tot0 cur0 by (rule message_as_fb)
  have "take 12 m @ le_bytes 1 @ le_bytes 0 @ take P pay
          = fragment_bytes t L tid 1 0 (take P pay)"
    by (subst m_fb) (rule fb_take12)
  then have run: "collector_run h (map wire [0 ..< N])
      = Some (Inr (take 12 m @ le_bytes 1 @ le_bytes 0 @ take P pay, True))"
    unfolding upt using init adds [unfolded LP] comp [unfolded LP] by simp
  show ?thesis
    apply (rule exI [of _ "map ?fd [0 ..< N]"])
    apply (rule exI [of _ "of_nat N"])
    apply (rule exI [of _ "map q [0 ..< N]"])
    apply (rule exI [of _ "map wire [0 ..< N]"])
    using split slices wires all run
    apply (simp only: P_def pay_def)
    done
qed

text \<open>
  C1 (as amended). For a message of a fragmented type whose array holds at least the
  \<open>length\<close> bytes its header announces, and a maximum fragment size \<open>S\<close> with
  \<open>20 < S < length\<close>: the payload slices of the descriptors of
  \<open>_mbim_message_split_fragments\<close>, concatenated in order, are the bytes of the message
  from offset 20 to offset \<open>length\<close>; and the fragments, written out and fed to the
  collector (\<open>init\<close> on the first, \<open>add\<close> on the others, \<open>complete\<close>), give TRUE and the
  first \<open>length\<close> bytes of the message with bytes 12 to 20 replaced by the encodings of
  \<open>total = 1\<close> and \<open>current = 0\<close>. When the message satisfies the length invariant these
  are the payload to the end of the array and the whole raw message.
\<close>

theorem split_join_round_trip:
  assumes "MBIM_MESSAGE_IS_FRAGMENT h m = Some True"
    and "mbim_message_get_message_length h m = Some L"
    and "20 < unat S" and "S < L" and "unat L \<le> length m"
  shows "\<exists>ds n slices frags.
      mbim_message_split_fragments h m S = Some (Some (ds, n))
    \<and> map (fragment_payload_slice m) ds = map Some slices
    \<and> concat slices = take (unat L - 20) (drop 20 m)
    \<and> map (fragment_on_wire h m) ds = map Some frags
    \<and> collector_run h frags
        = Some (Inr (take 12 m @ le_bytes 1 @ le_bytes 0 @ take (unat L - 20) (drop 20 m), True))
    \<and> (length_invariant h m \<longrightarrow>
         concat slices = drop 20 m
         \<and> collector_run h frags
             = Some (Inr (take 12 m @ le_bytes 1 @ le_bytes 0 @ drop 20 m, True))
         \<and> mbim_message_get_raw (take 12 m @ le_bytes 1 @ le_bytes 0 @ drop 20 m)
             = Inr (take 12 m @ le_bytes 1 @ le_bytes 0 @ drop 20 m, L)
         \<and> mbim_message_get_raw m = Inr (m, L))"
proof -
  from split_join_general [OF assms] obtain ds n slices frags where
    g: "mbim_message_split_fragments h m S = Some (Some (ds, n))"
      "map (fragment_payload_slice m) ds = map Some slices"
      "concat slices = take (unat L - 20) (drop 20 m)"
      "map (fragment_on_wire h m) ds = map Some frags"
      "collector_run h frags
        = Some (Inr (take 12 m @ le_bytes 1 @ le_bytes 0 @ take (unat L - 20) (drop 20 m), True))"
    by blast
  have inv: "concat slices = drop 20 m
         \<and> collector_run h frags
             = Some (Inr (take 12 m @ le_bytes 1 @ le_bytes 0 @ drop 20 m, True))
         \<and> mbim_message_get_raw (take 12 m @ le_bytes 1 @ le_bytes 0 @ drop 20 m)
             = Inr (take 12 m @ le_bytes 1 @ le_bytes 0 @ drop 20 m, L)
         \<and> mbim_message_get_raw m = Inr (m, L)"
    if "length_invariant h m"
  proof -
    have uL: "unat L = length m"
      using that assms(2)
      by (auto simp add: length_invariant_iff mbim_message_get_message_length_def header_fields)
    have "of_nat (unat L) = L"
      by simp
    then have oL: "of_nat (length m) = L"
      by (simp only: uL)
    have l20: "20 < length m"
      using assms(3,4) uL by (simp add: word_less_nat_alt)
    then have full: "take (unat L - 20) (drop 20 m) = drop 20 m"
      by (simp add: uL)
    have len: "length (take 12 m @ le_bytes 1 @ le_bytes 0 @ drop 20 m) = length m"
      using l20 by simp
    have "mbim_message_get_raw (take 12 m @ le_bytes 1 @ le_bytes 0 @ drop 20 m)
             = Inr (take 12 m @ le_bytes 1 @ le_bytes 0 @ drop 20 m, L)"
      using l20 unfolding mbim_message_get_raw_def len oL by auto
    moreover have "mbim_message_get_raw m = Inr (m, L)"
      using l20 unfolding mbim_message_get_raw_def oL by auto
    ultimately show ?thesis
      using g(3,5) unfolding full by simp
  qed
  show ?thesis
    apply (rule exI [of _ ds])
    apply (rule exI [of _ n])
    apply (rule exI [of _ slices])
    apply (rule exI [of _ frags])
    apply (rule conjI, rule g(1))
    apply (rule conjI, rule g(2))
    apply (rule conjI, rule g(3))
    apply (rule conjI, rule g(4))
    apply (rule conjI, rule g(5))
    apply (rule impI)
    apply (erule inv)
    done
qed

theorem split_join_round_trip_witness:
  "\<exists>ds n slices frags.
      mbim_message_split_fragments G_BIG_ENDIAN
        [3,0,0,0, 25,0,0,0, 9,0,0,0, 7,0,0,0, 5,0,0,0, 1,2,3,4,5] 22 = Some (Some (ds, n))
    \<and> map (fragment_payload_slice [3,0,0,0, 25,0,0,0, 9,0,0,0, 7,0,0,0, 5,0,0,0, 1,2,3,4,5]) ds
        = map Some slices
    \<and> concat slices = [1,2,3,4,5]
    \<and> map (fragment_on_wire G_BIG_ENDIAN
              [3,0,0,0, 25,0,0,0, 9,0,0,0, 7,0,0,0, 5,0,0,0, 1,2,3,4,5]) ds = map Some frags
    \<and> collector_run G_BIG_ENDIAN frags
        = Some (Inr ([3,0,0,0, 25,0,0,0, 9,0,0,0, 1,0,0,0, 0,0,0,0, 1,2,3,4,5], True))"
proof -
  define m :: MbimMessage
    where "m = [3,0,0,0, 25,0,0,0, 9,0,0,0, 7,0,0,0, 5,0,0,0, 1,2,3,4,5]"
  have m: "MBIM_MESSAGE_IS_FRAGMENT G_BIG_ENDIAN m = Some True"
    "mbim_message_get_message_length G_BIG_ENDIAN m = Some 25"
    by (simp_all add: m_def mbim_message_get_message_length_def eval_fields)
  have side: "20 < unat (22 :: guint32)" "(22 :: guint32) < 25" "unat (25 :: guint32) \<le> length m"
    by (simp_all add: m_def word_less_nat_alt)
  have e: "take 12 m @ le_bytes 1 @ le_bytes 0 @ [1,2,3,4,5]
      = [3,0,0,0, 25,0,0,0, 9,0,0,0, 1,0,0,0, 0,0,0,0, 1,2,3,4,5]"
    "take (unat (25 :: guint32) - 20) (drop 20 m) = [1,2,3,4,5]"
    by (simp_all add: m_def le_bytes_def)
  from split_join_round_trip [OF m side] obtain ds n slices frags where
    g: "mbim_message_split_fragments G_BIG_ENDIAN m 22 = Some (Some (ds, n))"
      "map (fragment_payload_slice m) ds = map Some slices"
      "concat slices = take (unat (25 :: guint32) - 20) (drop 20 m)"
      "map (fragment_on_wire G_BIG_ENDIAN m) ds = map Some frags"
      "collector_run G_BIG_ENDIAN frags
        = Some (Inr (take 12 m @ le_bytes 1 @ le_bytes 0
                       @ take (unat (25 :: guint32) - 20) (drop 20 m), True))"
    by blast
  show ?thesis
    apply (rule exI [of _ ds])
    apply (rule exI [of _ n])
    apply (rule exI [of _ slices])
    apply (rule exI [of _ frags])
    using g [unfolded e] unfolding m_def
    apply (intro conjI)
        apply assumption+
    done
qed

text \<open>
  C1 as it is stated fails on a message whose array is longer than its length
  field says: here 28 bytes with a length field of 25, split for a maximum fragment size
  of 22. The slices cover the 5 payload bytes up to offset 25, not the 8 bytes to the end
  of the array, and the reassembled message has 25 bytes, not 28.
\<close>

theorem split_join_round_trip_counterexample:
  "MBIM_MESSAGE_IS_FRAGMENT G_LITTLE_ENDIAN
      [3,0,0,0, 25,0,0,0, 9,0,0,0, 1,0,0,0, 0,0,0,0, 1,2,3,4,5, 6,7,8] = Some True
   \<and> mbim_message_get_message_length G_LITTLE_ENDIAN
      [3,0,0,0, 25,0,0,0, 9,0,0,0, 1,0,0,0, 0,0,0,0, 1,2,3,4,5, 6,7,8] = Some 25
   \<and> mbim_message_split_fragments G_LITTLE_ENDIAN
      [3,0,0,0, 25,0,0,0, 9,0,0,0, 1,0,0,0, 0,0,0,0, 1,2,3,4,5, 6,7,8] 22
      = Some (Some (map (fragment_descriptor G_LITTLE_ENDIAN 3 9 2 5 3) [0, 1, 2], 3))
   \<and> map (fragment_payload_slice [3,0,0,0, 25,0,0,0, 9,0,0,0, 1,0,0,0, 0,0,0,0, 1,2,3,4,5, 6,7,8])
        (map (fragment_descriptor G_LITTLE_ENDIAN 3 9 2 5 3) [0, 1, 2])
      = map Some [ [1,2], [3,4], [5]]
   \<and> concat [ [1,2], [3,4], [5 :: guint8]]
      \<noteq> drop 20 [3,0,0,0, 25,0,0,0, 9,0,0,0, 1,0,0,0, 0,0,0,0, 1,2,3,4,5, 6,7,8]
   \<and> map (fragment_on_wire G_LITTLE_ENDIAN
             [3,0,0,0, 25,0,0,0, 9,0,0,0, 1,0,0,0, 0,0,0,0, 1,2,3,4,5, 6,7,8])
        (map (fragment_descriptor G_LITTLE_ENDIAN 3 9 2 5 3) [0, 1, 2])
      = map Some [ [3,0,0,0, 22,0,0,0, 9,0,0,0, 3,0,0,0, 0,0,0,0, 1,2],
                  [3,0,0,0, 22,0,0,0, 9,0,0,0, 3,0,0,0, 1,0,0,0, 3,4],
                  [3,0,0,0, 21,0,0,0, 9,0,0,0, 3,0,0,0, 2,0,0,0, 5]]
   \<and> collector_run G_LITTLE_ENDIAN
        [ [3,0,0,0, 22,0,0,0, 9,0,0,0, 3,0,0,0, 0,0,0,0, 1,2],
         [3,0,0,0, 22,0,0,0, 9,0,0,0, 3,0,0,0, 1,0,0,0, 3,4],
         [3,0,0,0, 21,0,0,0, 9,0,0,0, 3,0,0,0, 2,0,0,0, 5]]
      = Some (Inr ([3,0,0,0, 25,0,0,0, 9,0,0,0, 1,0,0,0, 0,0,0,0, 1,2,3,4,5], True))
   \<and> mbim_message_get_raw [3,0,0,0, 25,0,0,0, 9,0,0,0, 1,0,0,0, 0,0,0,0, 1,2,3,4,5]
      = Inr ([3,0,0,0, 25,0,0,0, 9,0,0,0, 1,0,0,0, 0,0,0,0, 1,2,3,4,5], 25)
   \<and> mbim_message_get_raw [3,0,0,0, 25,0,0,0, 9,0,0,0, 1,0,0,0, 0,0,0,0, 1,2,3,4,5, 6,7,8]
      = Inr ([3,0,0,0, 25,0,0,0, 9,0,0,0, 1,0,0,0, 0,0,0,0, 1,2,3,4,5, 6,7,8], 28)
   \<and> [3,0,0,0, 25,0,0,0, 9,0,0,0, 1,0,0,0, 0,0,0,0, 1,2,3,4,5]
      \<noteq> take 12 [3,0,0,0, 25,0,0,0, 9,0,0,0, 1,0,0,0, 0,0,0,0, 1,2,3,4,5, 6,7,8]
          @ le_bytes 1 @ le_bytes 0
          @ drop 20 [3,0,0,0, 25,0,0,0, 9,0,0,0, 1,0,0,0, 0,0,0,0, 1,2,3,4,5, 6,7,8]"
proof -
  define m :: MbimMessage
    where "m = [3,0,0,0, 25,0,0,0, 9,0,0,0, 1,0,0,0, 0,0,0,0, 1,2,3,4,5, 6,7,8]"
  let ?fd = "fragment_descriptor G_LITTLE_ENDIAN 3 9 2 5 3"
  have f: "field32 m 4 = Some 25" "field32 m 0 = Some 3" "field32 m 8 = Some 9"
    by (simp_all add: m_def field32_def le_word_def)
  have isf: "MBIM_MESSAGE_IS_FRAGMENT G_LITTLE_ENDIAN m = Some True"
    by (simp add: is_fragment_field f MBIM_MESSAGE_TYPE_COMMAND_def)
  have len: "mbim_message_get_message_length G_LITTLE_ENDIAN m = Some 25"
    by (simp add: mbim_message_get_message_length_def header_fields f)
  have upt3: "[0 ..< 3] = [0, 1, 2 :: nat]"
    by (simp add: upt_conv_Cons)
  have split: "mbim_message_split_fragments G_LITTLE_ENDIAN m 22
      = Some (Some (map ?fd [0, 1, 2], 3))"
    using split_closed [OF f, of 22 G_LITTLE_ENDIAN]
    by (simp add: ceil_div_def word_le_nat_alt upt3)
  have G: "(2 :: nat) \<le> G_MAXUINT"
    by (simp add: G_MAXUINT_def)
  have slices: "map (fragment_payload_slice m) (map ?fd [0, 1, 2]) = map Some [ [1,2], [3,4], [5]]"
    by (simp add: fragment_payload_slice_def descriptor_fields [OF G]) (simp add: m_def)
  have wires: "map (fragment_on_wire G_LITTLE_ENDIAN m) (map ?fd [0, 1, 2])
      = map Some [ [3,0,0,0, 22,0,0,0, 9,0,0,0, 3,0,0,0, 0,0,0,0, 1,2],
                  [3,0,0,0, 22,0,0,0, 9,0,0,0, 3,0,0,0, 1,0,0,0, 3,4],
                  [3,0,0,0, 21,0,0,0, 9,0,0,0, 3,0,0,0, 2,0,0,0, 5]]"
    by (simp add: fragment_on_wire_def fragment_payload_slice_def descriptor_fields [OF G])
       (simp add: m_def le_bytes_def)
  have w: "[3,0,0,0, 22,0,0,0, 9,0,0,0, 3,0,0,0, 0,0,0,0, 1,2] = fragment_bytes 3 22 9 3 0 [1,2]"
    "[3,0,0,0, 22,0,0,0, 9,0,0,0, 3,0,0,0, 1,0,0,0, 3,4] = fragment_bytes 3 22 9 3 1 [3,4]"
    "[3,0,0,0, 21,0,0,0, 9,0,0,0, 3,0,0,0, 2,0,0,0, 5] = fragment_bytes 3 21 9 3 2 [5]"
    "[3,0,0,0, 25,0,0,0, 9,0,0,0, 1,0,0,0, 0,0,0,0, 1,2,3,4,5]
       = fragment_bytes 3 25 9 1 0 [1,2,3,4,5]"
    by (simp_all add: fragment_bytes_def le_bytes_def)
  have fbf: "MBIM_MESSAGE_IS_FRAGMENT G_LITTLE_ENDIAN (fragment_bytes 3 l tid tot cur p) = Some True"
    for l tid tot cur p
    using isf f(2) by (rule fb_is_fragment)
  have i: "mbim_message_fragment_collector_init G_LITTLE_ENDIAN (fragment_bytes 3 22 9 3 0 [1,2])
      = Some (Inr (fragment_bytes 3 22 9 3 0 [1,2]))"
    by (rule init_fb [OF fbf]) simp
  have a1: "mbim_message_fragment_collector_add G_LITTLE_ENDIAN
       (fragment_bytes 3 22 9 3 0 [1,2]) (fragment_bytes 3 22 9 3 1 [3,4])
      = Some (fragment_bytes 3 24 9 3 1 [1,2,3,4], Inr ())"
    using add_fb [OF fbf fbf, of 22 "[3,4]" "[1,2]" 22 9 3 0 9 3]
    by (simp add: G_MAXUINT_def)
  have a2: "mbim_message_fragment_collector_add G_LITTLE_ENDIAN
       (fragment_bytes 3 24 9 3 1 [1,2,3,4]) (fragment_bytes 3 21 9 3 2 [5])
      = Some (fragment_bytes 3 25 9 3 2 [1,2,3,4,5], Inr ())"
    using add_fb [OF fbf fbf, of 21 "[5]" "[1,2,3,4]" 24 9 3 1 9 3]
    by (simp add: G_MAXUINT_def)
  have c: "mbim_message_fragment_collector_complete G_LITTLE_ENDIAN
       (fragment_bytes 3 25 9 3 2 [1,2,3,4,5])
      = Some (fragment_bytes 3 25 9 1 0 [1,2,3,4,5], True)"
    by (rule complete_fb [OF fbf]) simp
  have run: "collector_run G_LITTLE_ENDIAN
        [ [3,0,0,0, 22,0,0,0, 9,0,0,0, 3,0,0,0, 0,0,0,0, 1,2],
         [3,0,0,0, 22,0,0,0, 9,0,0,0, 3,0,0,0, 1,0,0,0, 3,4],
         [3,0,0,0, 21,0,0,0, 9,0,0,0, 3,0,0,0, 2,0,0,0, 5]]
      = Some (Inr ([3,0,0,0, 25,0,0,0, 9,0,0,0, 1,0,0,0, 0,0,0,0, 1,2,3,4,5], True))"
    unfolding w by (simp add: i a1 a2 c)
  have raw: "mbim_message_get_raw [3,0,0,0, 25,0,0,0, 9,0,0,0, 1,0,0,0, 0,0,0,0, 1,2,3,4,5]
      = Inr ([3,0,0,0, 25,0,0,0, 9,0,0,0, 1,0,0,0, 0,0,0,0, 1,2,3,4,5], 25)"
    "mbim_message_get_raw m = Inr (m, 28)"
    by (simp_all add: mbim_message_get_raw_def m_def)
  have ne: "concat [ [1,2], [3,4], [5 :: guint8]] \<noteq> drop 20 m"
    by (simp add: m_def)
  have ne': "[3,0,0,0, 25,0,0,0, 9,0,0,0, 1,0,0,0, 0,0,0,0, 1,2,3,4,5]
      \<noteq> take 12 m @ le_bytes 1 @ le_bytes 0 @ drop 20 m"
    by (simp add: m_def)
  show ?thesis
    using isf len split slices ne wires run raw ne' unfolding m_def
    by (intro conjI) assumption+
qed

end
